theory Spec2Isabelle
  imports Main "HOL-Library.Word"
begin

unbundle bit_operations_syntax

section \<open>The /dev/crypto driver (cryptodev.c): data model\<close>

text \<open>
  The driver keeps, per open file, a \<^verbatim>\<open>struct fcrypt\<close> whose \<^verbatim>\<open>list\<close> links the
  \<^verbatim>\<open>struct csession\<close> objects of that file. The model is sequential: each call runs to
  its end before the next one starts, so the two semaphores (taken and released inside every
  call) are not part of the state.
\<close>

type_synonym byte = "8 word"
type_synonym u32 = "32 word"
type_synonym u64 = "64 word"

text \<open>Errno values of Linux, and the page size of the common configurations.\<close>

definition EINVAL :: int where "EINVAL = 22"
definition ENOMEM :: int where "ENOMEM = 12"
definition ENOENT :: int where "ENOENT = 2"
definition PAGE_SIZE :: nat where "PAGE_SIZE = 4096"

text \<open>
  The algorithm numbers of cryptodev.h, as far as the two \<^verbatim>\<open>switch\<close> statements of
  \<^verbatim>\<open>crypto_create_session\<close> tell them apart: the value 0, each \<^verbatim>\<open>case\<close> label, and
  any other value (the \<^verbatim>\<open>default\<close> branch).
\<close>

datatype cipher_id =
    CIPHER_0 | CRYPTO_DES_CBC | CRYPTO_3DES_CBC | CRYPTO_BLF_CBC | CRYPTO_AES_CBC
  | CRYPTO_CAMELLIA_CBC | CIPHER_OTHER

datatype mac_id =
    MAC_0 | CRYPTO_MD5_HMAC | CRYPTO_RIPEMD160_HMAC | CRYPTO_SHA1_HMAC | CRYPTO_SHA2_256_HMAC
  | CRYPTO_SHA2_384_HMAC | CRYPTO_SHA2_512_HMAC
  | CRYPTO_MD5 | CRYPTO_RIPEMD160 | CRYPTO_SHA1 | CRYPTO_SHA2_256 | CRYPTO_SHA2_384
  | CRYPTO_SHA2_512 | MAC_OTHER

text \<open>
  What the driver uses and does not define: the constants of cryptodev.h that occur in
  these functions by name only (the compile-time check in \<^verbatim>\<open>struct csession\<close> wants
  \<^verbatim>\<open>COP_ENCRYPT\<close> and \<^verbatim>\<open>COP_DECRYPT\<close> below 2, since they index \<^verbatim>\<open>stat[2]\<close>), the
  module parameter \<^verbatim>\<open>enable_stats\<close>, the kernel's allocators (whether \<^verbatim>\<open>kmalloc\<close> and
  \<^verbatim>\<open>__get_free_page\<close> succeed) and its CryptoAPI.

  A cipher transform is a value of type \<open>'c\<close>, a hash transform a value of type \<open>'h\<close>; a
  call that changes the transform returns the new one, after its return value. A pointer
  that is \<^verbatim>\<open>NULL\<close> or \<^verbatim>\<open>IS_ERR\<close> is \<open>None\<close>. \<open>crypto_blkcipher_alg\<close> yields
  \<^verbatim>\<open>min_keysize\<close> and \<^verbatim>\<open>max_keysize\<close>. \<open>crypto_blkcipher_encrypt\<close> and
  \<open>crypto_blkcipher_decrypt\<close> work in place: they take the bytes of the buffer and yield
  as many, the bytes it holds afterwards. \<open>crypto_hash_final\<close> yields the contents of
  \<^verbatim>\<open>hash_output\<close>.
\<close>

record ('c, 'h) kernel =
  COP_ENCRYPT :: u32
  COP_DECRYPT :: u32
  IOP_CIPHER :: u32
  IOP_HASH :: u32
  CRYPTO_CIPHER_MAX_KEY_LEN :: nat
  CRYPTO_HMAC_MAX_KEY_LEN :: nat
  enable_stats :: bool
  kmalloc_ok :: bool
  get_free_page_ok :: bool
  crypto_alloc_blkcipher :: "string \<Rightarrow> 'c option"
  crypto_blkcipher_alg :: "'c \<Rightarrow> (nat \<times> nat) option"
  crypto_blkcipher_setkey :: "'c \<Rightarrow> byte list \<Rightarrow> int \<times> 'c"
  crypto_blkcipher_blocksize :: "'c \<Rightarrow> nat"
  crypto_blkcipher_ivsize :: "'c \<Rightarrow> nat"
  crypto_blkcipher_set_iv :: "'c \<Rightarrow> byte list \<Rightarrow> 'c"
  crypto_blkcipher_encrypt :: "'c \<Rightarrow> byte list \<Rightarrow> int \<times> 'c \<times> byte list"
  crypto_blkcipher_decrypt :: "'c \<Rightarrow> byte list \<Rightarrow> int \<times> 'c \<times> byte list"
  crypto_alloc_hash :: "string \<Rightarrow> 'h option"
  crypto_hash_setkey :: "'h \<Rightarrow> byte list \<Rightarrow> int \<times> 'h"
  crypto_hash_init :: "'h \<Rightarrow> int \<times> 'h"
  crypto_hash_update :: "'h \<Rightarrow> byte list \<Rightarrow> int \<times> 'h"
  crypto_hash_final :: "'h \<Rightarrow> int \<times> 'h \<times> byte list"
  crypto_hash_digestsize :: "'h \<Rightarrow> nat"

text \<open>
  The calls a function makes to the outside, in order. An allocation is recorded when it
  succeeds. \<open>Encrypt p c\<close> is \<^verbatim>\<open>crypto_blkcipher_encrypt\<close> on a buffer holding \<open>p\<close> that
  holds \<open>c\<close> afterwards; \<open>Decrypt c p\<close> likewise. \<open>Copy_from_user a bs\<close> and
  \<open>Copy_to_user a bs\<close> carry the address in the caller's memory and the bytes copied.
\<close>

datatype event =
    Alloc_blkcipher string | Blkcipher_setkey "byte list" | Free_blkcipher
  | Alloc_hash string | Hash_setkey "byte list" | Free_hash
  | Kfree_session u32
  | Get_free_page | Free_page
  | Hash_init | Set_iv "byte list"
  | Copy_from_user nat "byte list"
  | Hash_update "byte list"
  | Encrypt "byte list" "byte list"
  | Decrypt "byte list" "byte list"
  | Copy_to_user nat "byte list"
  | Hash_final

text \<open>
  \<^verbatim>\<open>struct csession\<close>, without the list links and the semaphore. \<open>stat\<close> is the array
  \<^verbatim>\<open>stat[2]\<close> of \<^verbatim>\<open>unsigned long long\<close>, and \<open>stat_count\<close> the counter of type
  \<^verbatim>\<open>size_t\<close> of a 64-bit kernel: both wrap around. Lengths, which are copied and compared
  and never added up, are natural numbers, here and below.
\<close>

record ('c, 'h) csession =
  tfm :: "'c option"
  hash_tfm :: "'h option"
  sid :: u32
  stat :: "u64 list"
  stat_max_size :: nat
  stat_count :: u64

text \<open>
  The state the calls work on: the sessions linked from \<^verbatim>\<open>fcr->list\<close>, in the order in which
  \<^verbatim>\<open>list_for_each_entry\<close> visits them; the memory of the calling process, by address; and
  the calls made so far.
\<close>

record ('c, 'h) state =
  fcr_list :: "('c, 'h) csession list"
  umem :: "nat \<Rightarrow> byte"
  trace :: "event list"

text \<open>\<^verbatim>\<open>struct session_op\<close>; \<open>key\<close> and \<open>mackey\<close> are addresses in the caller's memory.\<close>

record session_op =
  cipher :: cipher_id
  mac :: mac_id
  keylen :: nat
  key :: nat
  mackeylen :: nat
  mackey :: nat
  ses :: u32

text \<open>
  \<^verbatim>\<open>copy_from_user\<close> and \<^verbatim>\<open>copy_to_user\<close>. The driver ignores their results; the model
  takes the addresses it is given to be readable and writable.
\<close>

definition copy_from_user :: "(nat \<Rightarrow> byte) \<Rightarrow> nat \<Rightarrow> nat \<Rightarrow> byte list" where
  "copy_from_user m p n = map m [p ..< p + n]"

definition copy_to_user :: "(nat \<Rightarrow> byte) \<Rightarrow> nat \<Rightarrow> byte list \<Rightarrow> (nat \<Rightarrow> byte)" where
  "copy_to_user m p bs = (\<lambda>a. if p \<le> a \<and> a < p + length bs then bs ! (a - p) else m a)"

section \<open>The session table\<close>

text \<open>
  The value of the cursor \<^verbatim>\<open>ses_ptr\<close> of a list walk. <linux/list.h> has
  \<^verbatim>\<open>
  #define list_for_each_entry(pos, head, member)
      for (pos = list_entry((head)->next, typeof(*pos), member);
           &pos->member != (head);
           pos = list_entry(pos->member.next, typeof(*pos), member))
  \<close>
  (with a prefetch hint in the condition, in kernels of the driver's time), and
  \<^verbatim>\<open>list_for_each_entry_safe\<close> differs only in reading the next entry ahead. So the cursor
  is the address of the \<open>i\<close>-th entry (\<open>Entry i\<close>) while the body runs, and when the walk ends
  without a \<^verbatim>\<open>break\<close> it is \<^verbatim>\<open>list_entry(head, ...)\<close>: the address of the list head
  itself, which lies in the \<^verbatim>\<open>struct fcrypt\<close>, taken for a \<^verbatim>\<open>struct csession\<close>
  (\<open>Head\<close>). The walk never sets the cursor to \<^verbatim>\<open>NULL\<close>.
\<close>

datatype ptr = NULL | Entry nat | Head

text \<open>The walk of \<^verbatim>\<open>crypto_get_session_by_sid\<close>, from the \<open>i\<close>-th entry on.\<close>

fun get_session_walk :: "nat \<Rightarrow> ('c, 'h) csession list \<Rightarrow> u32 \<Rightarrow> ptr" where
  "get_session_walk i [] s = Head"
| "get_session_walk i (e # es) s =
     (if sid e = s then Entry i else get_session_walk (Suc i) es s)"

definition crypto_get_session_by_sid :: "('c, 'h) state \<Rightarrow> u32 \<Rightarrow> ptr" where
  "crypto_get_session_by_sid st s = get_session_walk 0 (fcr_list st) s"

text \<open>\<^verbatim>\<open>crypto_destroy_session\<close>: the calls it makes.\<close>

definition crypto_destroy_session :: "('c, 'h) csession \<Rightarrow> event list" where
  "crypto_destroy_session e =
     (if tfm e \<noteq> None then [Free_blkcipher] else []) @
     (if hash_tfm e \<noteq> None then [Free_hash] else []) @
     [Kfree_session (sid e)]"

text \<open>
  The walk of \<^verbatim>\<open>crypto_finish_session\<close>: the final cursor, the list that is left and the
  calls made. The function then tests the cursor: \<^verbatim>\<open>if (!ses_ptr) ret = -ENOENT\<close>.
\<close>

fun finish_session_walk ::
  "nat \<Rightarrow> ('c, 'h) csession list \<Rightarrow> u32 \<Rightarrow> ptr \<times> ('c, 'h) csession list \<times> event list" where
  "finish_session_walk i [] s = (Head, [], [])"
| "finish_session_walk i (e # es) s =
     (if sid e = s then (Entry i, es, crypto_destroy_session e)
      else (case finish_session_walk (Suc i) es s of
              (p, es', evs) \<Rightarrow> (p, e # es', evs)))"

definition crypto_finish_session :: "('c, 'h) state \<Rightarrow> u32 \<Rightarrow> int \<times> ('c, 'h) state" where
  "crypto_finish_session st s =
     (case finish_session_walk 0 (fcr_list st) s of
        (ses_ptr, es', evs) \<Rightarrow>
          (if ses_ptr = NULL then - ENOENT else 0,
           st\<lparr>fcr_list := es', trace := trace st @ evs\<rparr>))"

section \<open>Creating a session\<close>

text \<open>
  The two \<^verbatim>\<open>switch\<close> statements: \<open>None\<close> is the \<^verbatim>\<open>default\<close> branch (the call returns
  \<^verbatim>\<open>-EINVAL\<close>), otherwise the value of \<^verbatim>\<open>alg_name\<close>, or of \<^verbatim>\<open>hash_name\<close> and
  \<^verbatim>\<open>hmac_mode\<close>.
\<close>

fun cipher_switch :: "cipher_id \<Rightarrow> string option option" where
  "cipher_switch CIPHER_0 = Some None"
| "cipher_switch CRYPTO_DES_CBC = Some (Some ''cbc(des)'')"
| "cipher_switch CRYPTO_3DES_CBC = Some (Some ''cbc(3des_ede)'')"
| "cipher_switch CRYPTO_BLF_CBC = Some (Some ''cbc(blowfish)'')"
| "cipher_switch CRYPTO_AES_CBC = Some (Some ''cbc(aes)'')"
| "cipher_switch CRYPTO_CAMELLIA_CBC = Some (Some ''cbc(camelia)'')"
| "cipher_switch CIPHER_OTHER = None"

fun mac_switch :: "mac_id \<Rightarrow> (string option \<times> bool) option" where
  "mac_switch MAC_0 = Some (None, True)"
| "mac_switch CRYPTO_MD5_HMAC = Some (Some ''hmac(md5)'', True)"
| "mac_switch CRYPTO_RIPEMD160_HMAC = Some (Some ''hmac(rmd160)'', True)"
| "mac_switch CRYPTO_SHA1_HMAC = Some (Some ''hmac(sha1)'', True)"
| "mac_switch CRYPTO_SHA2_256_HMAC = Some (Some ''hmac(sha256)'', True)"
| "mac_switch CRYPTO_SHA2_384_HMAC = Some (Some ''hmac(sha384)'', True)"
| "mac_switch CRYPTO_SHA2_512_HMAC = Some (Some ''hmac(sha512)'', True)"
| "mac_switch CRYPTO_MD5 = Some (Some ''md5'', False)"
| "mac_switch CRYPTO_RIPEMD160 = Some (Some ''rmd160'', False)"
| "mac_switch CRYPTO_SHA1 = Some (Some ''sha1'', False)"
| "mac_switch CRYPTO_SHA2_256 = Some (Some ''sha256'', False)"
| "mac_switch CRYPTO_SHA2_384 = Some (Some ''sha384'', False)"
| "mac_switch CRYPTO_SHA2_512 = Some (Some ''sha512'', False)"
| "mac_switch MAC_OTHER = None"

text \<open>
  How a block of the function ends: it falls through to the next block, it executes
  \<^verbatim>\<open>return\<close>, or it sets \<^verbatim>\<open>ret\<close> and jumps to the label \<^verbatim>\<open>error\<close>.
\<close>

datatype flow = Proceed | Return_now int | Goto_error int

text \<open>
  The block \<^verbatim>\<open>if (alg_name) { ... }\<close>: how it ends, the value of \<^verbatim>\<open>blk_tfm\<close> and the
  calls made.
\<close>

definition setup_cipher ::
  "('c, 'h) kernel \<Rightarrow> session_op \<Rightarrow> (nat \<Rightarrow> byte) \<Rightarrow> string option
     \<Rightarrow> flow \<times> 'c option \<times> event list" where
  "setup_cipher K sop m alg_name =
     (case alg_name of
        None \<Rightarrow> (Proceed, None, [])
      | Some name \<Rightarrow>
          (case crypto_alloc_blkcipher K name of
             None \<Rightarrow> (Return_now (- EINVAL), None, [])
           | Some t \<Rightarrow>
               if (case crypto_blkcipher_alg K t of
                     None \<Rightarrow> False
                   | Some (min_keysize, max_keysize) \<Rightarrow>
                       keylen sop < min_keysize \<or> keylen sop > max_keysize)
               then (Goto_error (- EINVAL), Some t, [Alloc_blkcipher name])
               else if keylen sop > CRYPTO_CIPHER_MAX_KEY_LEN K
               then (Goto_error (- EINVAL), Some t, [Alloc_blkcipher name])
               else
                 let keyp = copy_from_user m (key sop) (keylen sop) in
                 (case crypto_blkcipher_setkey K t keyp of
                    (ret, t') \<Rightarrow>
                      (if ret \<noteq> 0 then Goto_error (- EINVAL) else Proceed,
                       Some t', [Alloc_blkcipher name, Blkcipher_setkey keyp]))))"

text \<open>The block \<^verbatim>\<open>if (hash_name) { ... }\<close>, in the same way, for \<^verbatim>\<open>hash_tfm\<close>.\<close>

definition setup_hash ::
  "('c, 'h) kernel \<Rightarrow> session_op \<Rightarrow> (nat \<Rightarrow> byte) \<Rightarrow> string option \<Rightarrow> bool
     \<Rightarrow> flow \<times> 'h option \<times> event list" where
  "setup_hash K sop m hash_name hmac_mode =
     (case hash_name of
        None \<Rightarrow> (Proceed, None, [])
      | Some name \<Rightarrow>
          (case crypto_alloc_hash K name of
             None \<Rightarrow> (Return_now (- EINVAL), None, [])
           | Some t \<Rightarrow>
               if hmac_mode then
                 if mackeylen sop > CRYPTO_HMAC_MAX_KEY_LEN K
                 then (Goto_error (- EINVAL), Some t, [Alloc_hash name])
                 else
                   let hkeyp = copy_from_user m (mackey sop) (mackeylen sop) in
                   (case crypto_hash_setkey K t hkeyp of
                      (ret, t') \<Rightarrow>
                        (if ret \<noteq> 0 then Goto_error (- EINVAL) else Proceed,
                         Some t', [Alloc_hash name, Hash_setkey hkeyp]))
               else (Proceed, Some t, [Alloc_hash name])))"

text \<open>The label \<^verbatim>\<open>error\<close>: the calls made there.\<close>

definition error_label :: "'c option \<Rightarrow> 'h option \<Rightarrow> event list" where
  "error_label blk_tfm hsh_tfm =
     (if blk_tfm \<noteq> None then [Free_blkcipher] else []) @
     (if hsh_tfm \<noteq> None then [Free_hash] else [])"

text \<open>
  The walk below the label \<^verbatim>\<open>restart\<close>: whether it finds an entry with the candidate's
  \<^verbatim>\<open>sid\<close> (and so draws again and restarts).
\<close>

fun sid_in_use :: "u32 \<Rightarrow> ('c, 'h) csession list \<Rightarrow> bool" where
  "sid_in_use s [] = False"
| "sid_in_use s (e # es) = (if s = sid e then True else sid_in_use s es)"

text \<open>
  The loop around \<^verbatim>\<open>restart\<close>. \<^verbatim>\<open>get_random_bytes\<close> hands out the values of a list of
  draws, one per call. The loop has no bound: when the draws are used up and the loop has
  not ended, the result is \<open>None\<close>.
\<close>

fun restart :: "u32 \<Rightarrow> u32 list \<Rightarrow> ('c, 'h) csession list \<Rightarrow> u32 option" where
  "restart s [] es = (if sid_in_use s es then None else Some s)"
| "restart s (r # rnd) es = (if sid_in_use s es then restart r rnd es else Some s)"

text \<open>
  \<^verbatim>\<open>crypto_create_session\<close>, with the draws \<open>rnd\<close> for \<^verbatim>\<open>get_random_bytes\<close>: the value
  returned, \<^verbatim>\<open>*sop\<close> and the state afterwards.
\<close>

definition crypto_create_session ::
  "('c, 'h) kernel \<Rightarrow> u32 list \<Rightarrow> session_op \<Rightarrow> ('c, 'h) state
     \<Rightarrow> (int \<times> session_op \<times> ('c, 'h) state) option" where
  "crypto_create_session K rnd sop st =
     (if cipher sop = CIPHER_0 \<and> mac sop = MAC_0 then Some (- EINVAL, sop, st)
      else case cipher_switch (cipher sop) of
        None \<Rightarrow> Some (- EINVAL, sop, st)
      | Some alg_name \<Rightarrow>
      (case mac_switch (mac sop) of
        None \<Rightarrow> Some (- EINVAL, sop, st)
      | Some (hash_name, hmac_mode) \<Rightarrow>
      (case setup_cipher K sop (umem st) alg_name of
        (Return_now ret, blk_tfm, ev1) \<Rightarrow> Some (ret, sop, st\<lparr>trace := trace st @ ev1\<rparr>)
      | (Goto_error ret, blk_tfm, ev1) \<Rightarrow>
          Some (ret, sop, st\<lparr>trace := trace st @ ev1 @ error_label blk_tfm (None :: 'h option)\<rparr>)
      | (Proceed, blk_tfm, ev1) \<Rightarrow>
      (case setup_hash K sop (umem st) hash_name hmac_mode of
        (Return_now ret, hsh_tfm, ev2) \<Rightarrow>
          Some (ret, sop, st\<lparr>trace := trace st @ ev1 @ ev2\<rparr>)
      | (Goto_error ret, hsh_tfm, ev2) \<Rightarrow>
          Some (ret, sop, st\<lparr>trace := trace st @ ev1 @ ev2 @ error_label blk_tfm hsh_tfm\<rparr>)
      | (Proceed, hsh_tfm, ev2) \<Rightarrow>
          if \<not> kmalloc_ok K
          then Some (- ENOMEM, sop,
                     st\<lparr>trace := trace st @ ev1 @ ev2 @ error_label blk_tfm hsh_tfm\<rparr>)
          else
          (case rnd of
             [] \<Rightarrow> None
           | s0 # rnd' \<Rightarrow>
              (case restart s0 rnd' (fcr_list st) of
                 None \<Rightarrow> None
               | Some s \<Rightarrow>
                   Some (0, sop\<lparr>ses := s\<rparr>,
                         st\<lparr>fcr_list :=
                              \<lparr>tfm = blk_tfm, hash_tfm = hsh_tfm, sid = s, stat = [0, 0],
                               stat_max_size = 0, stat_count = 0\<rparr> # fcr_list st,
                            trace := trace st @ ev1 @ ev2\<rparr>)))))))"

section \<open>Running a request\<close>

text \<open>
  \<^verbatim>\<open>struct crypt_op\<close>, \<^verbatim>\<open>struct crypt_iovec\<close> and \<^verbatim>\<open>struct crypt_opv\<close>, as far as the
  driver reads them. \<open>src\<close>, \<open>dst\<close>, \<open>mac\<close> and \<open>iv\<close> are addresses in the caller's memory (0
  is the null pointer); \<open>iovec\<close> is the array of \<open>iovec_cnt\<close> segments.
\<close>

record crypt_op =
  op :: u32
  ses :: u32
  len :: nat
  src :: nat
  dst :: nat
  mac :: nat
  iv :: nat

record crypt_iovec =
  src :: nat
  len :: nat
  op_flags :: u32

record crypt_opv =
  op :: u32
  ses :: u32
  iovec :: "crypt_iovec list"
  dst :: nat
  mac :: nat
  iv :: nat

text \<open>
  What \<^verbatim>\<open>crypto_runv\<close> works on once it holds a session: the session \<^verbatim>\<open>*ses_ptr\<close>, the
  cursor \<^verbatim>\<open>dst\<close>, the caller's memory and the calls made so far.
\<close>

record ('c, 'h) run =
  r_ses :: "('c, 'h) csession"
  r_dst :: nat
  r_umem :: "nat \<Rightarrow> byte"
  r_trace :: "event list"

text \<open>
  How a block leaves the straight line: \<^verbatim>\<open>goto out\<close>, \<^verbatim>\<open>goto out_unlock\<close>, or the
  division \<^verbatim>\<open>nbytes % blocksize\<close> by zero. A block yields \<open>Inl\<close> of the label, the value
  of \<^verbatim>\<open>ret\<close> and the state, or \<open>Inr\<close> of the state when it falls through.
\<close>

datatype label = Out | Out_unlock | Divide_error

type_synonym ('c, 'h) jump = "label \<times> int \<times> ('c, 'h) run"

definition emit :: "event \<Rightarrow> ('c, 'h) run \<Rightarrow> ('c, 'h) run" where
  "emit e r = r\<lparr>r_trace := r_trace r @ [e]\<rparr>"

text \<open>The two blocks \<^verbatim>\<open>if (hdesc.tfm && (op_flags & IOP_HASH))\<close> of the inner loop.\<close>

definition hash_step ::
  "('c, 'h) kernel \<Rightarrow> u32 \<Rightarrow> byte list \<Rightarrow> ('c, 'h) run \<Rightarrow> ('c, 'h) jump + ('c, 'h) run" where
  "hash_step K flags data r =
     (case hash_tfm (r_ses r) of
        None \<Rightarrow> Inr r
      | Some h \<Rightarrow>
          if flags AND IOP_HASH K \<noteq> 0 then
            (case crypto_hash_update K h data of
               (ret, h') \<Rightarrow>
                 let r' = emit (Hash_update data) (r\<lparr>r_ses := (r_ses r)\<lparr>hash_tfm := Some h'\<rparr>\<rparr>)
                 in if ret \<noteq> 0 then Inl (Out, ret, r') else Inr r')
          else Inr r)"

text \<open>
  The block \<^verbatim>\<open>if (bdesc.tfm && (op_flags & IOP_CIPHER))\<close> of the encrypt branch; with the
  state it yields the contents of the staging buffer \<^verbatim>\<open>data\<close>.
\<close>

definition encrypt_step ::
  "('c, 'h) kernel \<Rightarrow> u32 \<Rightarrow> nat \<Rightarrow> byte list \<Rightarrow> ('c, 'h) run
     \<Rightarrow> ('c, 'h) jump + ('c, 'h) run \<times> byte list" where
  "encrypt_step K flags current_len data r =
     (case tfm (r_ses r) of
        None \<Rightarrow> Inr (r, data)
      | Some c \<Rightarrow>
          if flags AND IOP_CIPHER K \<noteq> 0 then
            (case crypto_blkcipher_encrypt K c data of
               (ret, c', data') \<Rightarrow>
                 let r' = emit (Encrypt data data') (r\<lparr>r_ses := (r_ses r)\<lparr>tfm := Some c'\<rparr>\<rparr>)
                 in if ret \<noteq> 0 then Inl (Out, ret, r')
                    else Inr (emit (Copy_to_user (r_dst r') data')
                                (r'\<lparr>r_umem := copy_to_user (r_umem r') (r_dst r') data',
                                    r_dst := r_dst r' + current_len\<rparr>), data'))
          else Inr (r, data))"

text \<open>The same block of the decrypt branch.\<close>

definition decrypt_step ::
  "('c, 'h) kernel \<Rightarrow> u32 \<Rightarrow> nat \<Rightarrow> byte list \<Rightarrow> ('c, 'h) run
     \<Rightarrow> ('c, 'h) jump + ('c, 'h) run \<times> byte list" where
  "decrypt_step K flags current_len data r =
     (case tfm (r_ses r) of
        None \<Rightarrow> Inr (r, data)
      | Some c \<Rightarrow>
          if flags AND IOP_CIPHER K \<noteq> 0 then
            (case crypto_blkcipher_decrypt K c data of
               (ret, c', data') \<Rightarrow>
                 let r' = emit (Decrypt data data') (r\<lparr>r_ses := (r_ses r)\<lparr>tfm := Some c'\<rparr>\<rparr>)
                 in if ret \<noteq> 0 then Inl (Out, ret, r')
                    else Inr (emit (Copy_to_user (r_dst r') data')
                                (r'\<lparr>r_umem := copy_to_user (r_umem r') (r_dst r') data',
                                    r_dst := r_dst r' + current_len\<rparr>), data'))
          else Inr (r, data))"

text \<open>
  One round of \<^verbatim>\<open>while (nbytes > 0)\<close>, up to the two updates of \<^verbatim>\<open>nbytes\<close> and
  \<^verbatim>\<open>src\<close>: \<open>s\<close> is the value of \<^verbatim>\<open>src\<close>.
\<close>

definition chunk ::
  "('c, 'h) kernel \<Rightarrow> u32 \<Rightarrow> u32 \<Rightarrow> nat \<Rightarrow> nat \<Rightarrow> ('c, 'h) run
     \<Rightarrow> ('c, 'h) jump + ('c, 'h) run" where
  "chunk K opr flags s current_len r =
     (let data = copy_from_user (r_umem r) s current_len;
          r0 = emit (Copy_from_user s data) r
      in if opr = COP_ENCRYPT K then
           (case hash_step K flags data r0 of
              Inl j \<Rightarrow> Inl j
            | Inr r1 \<Rightarrow>
                (case encrypt_step K flags current_len data r1 of
                   Inl j \<Rightarrow> Inl j
                 | Inr (r2, data') \<Rightarrow> Inr r2))
         else
           (case decrypt_step K flags current_len data r0 of
              Inl j \<Rightarrow> Inl j
            | Inr (r1, data') \<Rightarrow> hash_step K flags data' r1))"

text \<open>
  The loop \<^verbatim>\<open>while (nbytes > 0)\<close> of one segment. Its two variables move together: after
  \<open>off\<close> bytes of the segment, \<^verbatim>\<open>nbytes\<close> is \<open>len iov - off\<close> and \<^verbatim>\<open>src\<close> is
  \<open>src iov + off\<close>.
\<close>

function segment_while ::
  "('c, 'h) kernel \<Rightarrow> u32 \<Rightarrow> crypt_iovec \<Rightarrow> nat \<Rightarrow> ('c, 'h) run
     \<Rightarrow> ('c, 'h) jump + ('c, 'h) run" where
  "segment_while K opr iov off r =
     (if off < len iov then
        (let nbytes = len iov - off;
             bufsize = (if PAGE_SIZE < len iov then PAGE_SIZE else len iov);
             current_len = (if nbytes > bufsize then bufsize else nbytes)
         in case chunk K opr (op_flags iov) (src iov + off) current_len r of
              Inl j \<Rightarrow> Inl j
            | Inr r' \<Rightarrow> segment_while K opr iov (off + current_len) r')
      else Inr r)"
  by pat_completeness auto
termination
  by (relation "measure (\<lambda>(K, opr, iov, off, r). len iov - off)")
     (auto simp: PAGE_SIZE_def split: if_splits)

text \<open>The block under \<^verbatim>\<open>CRYPTODEV_STATS\<close>.\<close>

definition update_stats ::
  "('c, 'h) kernel \<Rightarrow> u32 \<Rightarrow> crypt_iovec \<Rightarrow> ('c, 'h) run \<Rightarrow> ('c, 'h) run" where
  "update_stats K opr iov r =
     (if enable_stats K then
        r\<lparr>r_ses := (r_ses r)
             \<lparr>stat := (stat (r_ses r))
                        [unat opr := stat (r_ses r) ! unat opr + of_nat (len iov)],
              stat_max_size :=
                (if stat_max_size (r_ses r) < len iov then len iov
                 else stat_max_size (r_ses r)),
              stat_count := stat_count (r_ses r) + 1\<rparr>\<rparr>
      else r)"

text \<open>The body of \<^verbatim>\<open>for (i=0;i<copv->iovec_cnt;i++)\<close> for one segment.\<close>

definition segment ::
  "('c, 'h) kernel \<Rightarrow> u32 \<Rightarrow> nat \<Rightarrow> crypt_iovec \<Rightarrow> ('c, 'h) run
     \<Rightarrow> ('c, 'h) jump + ('c, 'h) run" where
  "segment K opr blocksize iov r =
     (if tfm (r_ses r) \<noteq> None \<and> op_flags iov AND IOP_CIPHER K \<noteq> 0 \<and> blocksize = 0
      then Inl (Divide_error, 0, r)
      else if tfm (r_ses r) \<noteq> None \<and> op_flags iov AND IOP_CIPHER K \<noteq> 0
              \<and> len iov mod blocksize \<noteq> 0
      then Inl (Out_unlock, - EINVAL, r)
      else (case segment_while K opr iov 0 r of
              Inl j \<Rightarrow> Inl j
            | Inr r' \<Rightarrow> Inr (update_stats K opr iov r')))"

fun iovec_loop ::
  "('c, 'h) kernel \<Rightarrow> u32 \<Rightarrow> nat \<Rightarrow> crypt_iovec list \<Rightarrow> ('c, 'h) run
     \<Rightarrow> ('c, 'h) jump + ('c, 'h) run" where
  "iovec_loop K opr blocksize [] r = Inr r"
| "iovec_loop K opr blocksize (iov # iovs) r =
     (case segment K opr blocksize iov r of
        Inl j \<Rightarrow> Inl j
      | Inr r' \<Rightarrow> iovec_loop K opr blocksize iovs r')"

text \<open>The block \<^verbatim>\<open>if (hdesc.tfm) { ret = crypto_hash_init(&hdesc); ... }\<close>.\<close>

definition hash_init_step :: "('c, 'h) kernel \<Rightarrow> ('c, 'h) run \<Rightarrow> ('c, 'h) jump + ('c, 'h) run" where
  "hash_init_step K r =
     (case hash_tfm (r_ses r) of
        None \<Rightarrow> Inr r
      | Some h \<Rightarrow>
          (case crypto_hash_init K h of
             (ret, h') \<Rightarrow>
               let r' = emit Hash_init (r\<lparr>r_ses := (r_ses r)\<lparr>hash_tfm := Some h'\<rparr>\<rparr>)
               in if ret \<noteq> 0 then Inl (Out_unlock, ret, r') else Inr r'))"

text \<open>
  The block \<^verbatim>\<open>if (ses_ptr->tfm) { ... }\<close>: the value of \<^verbatim>\<open>blocksize\<close> (initialised to
  1), and the state once the IV is set.
\<close>

definition blocksize_of :: "('c, 'h) kernel \<Rightarrow> ('c, 'h) run \<Rightarrow> nat" where
  "blocksize_of K r =
     (case tfm (r_ses r) of None \<Rightarrow> 1 | Some c \<Rightarrow> crypto_blkcipher_blocksize K c)"

definition set_iv_step :: "('c, 'h) kernel \<Rightarrow> crypt_opv \<Rightarrow> ('c, 'h) run \<Rightarrow> ('c, 'h) run" where
  "set_iv_step K copv r =
     (case tfm (r_ses r) of
        None \<Rightarrow> r
      | Some c \<Rightarrow>
          let ivsize = crypto_blkcipher_ivsize K c in
          if iv copv \<noteq> 0 then
            (let ivp = copy_from_user (r_umem r) (iv copv) ivsize
             in emit (Set_iv ivp)
                  (r\<lparr>r_ses := (r_ses r)\<lparr>tfm := Some (crypto_blkcipher_set_iv K c ivp)\<rparr>\<rparr>))
          else r)"

text \<open>
  The block \<^verbatim>\<open>if (hdesc.tfm) { ret = crypto_hash_final(&hdesc, hash_output); ... }\<close>. The
  third component of \<open>crypto_hash_final\<close> is the contents of \<^verbatim>\<open>hash_output\<close>.
\<close>

definition hash_final_step ::
  "('c, 'h) kernel \<Rightarrow> crypt_opv \<Rightarrow> ('c, 'h) run \<Rightarrow> ('c, 'h) jump + ('c, 'h) run" where
  "hash_final_step K copv r =
     (case hash_tfm (r_ses r) of
        None \<Rightarrow> Inr r
      | Some h \<Rightarrow>
          (case crypto_hash_final K h of
             (ret, h', hash_output) \<Rightarrow>
               let r' = emit Hash_final (r\<lparr>r_ses := (r_ses r)\<lparr>hash_tfm := Some h'\<rparr>\<rparr>)
               in if ret \<noteq> 0 then Inl (Out, ret, r')
                  else
                    (let digest = take (crypto_hash_digestsize K h') hash_output
                     in Inr (emit (Copy_to_user (mac copv) digest)
                               (r'\<lparr>r_umem := copy_to_user (r_umem r') (mac copv) digest\<rparr>)))))"

text \<open>
  The two labels at the end: \<^verbatim>\<open>out\<close> frees the page and falls into \<^verbatim>\<open>out_unlock\<close>,
  which returns \<^verbatim>\<open>ret\<close>. A division by zero returns nothing.
\<close>

fun leave :: "('c, 'h) jump \<Rightarrow> (int \<times> ('c, 'h) run) option" where
  "leave (Out, ret, r) = Some (ret, emit Free_page r)"
| "leave (Out_unlock, ret, r) = Some (ret, r)"
| "leave (Divide_error, ret, r) = None"

text \<open>\<^verbatim>\<open>crypto_runv\<close> from the end of the \<^verbatim>\<open>for\<close> loop on, given how the loop ended.\<close>

definition after_loop ::
  "('c, 'h) kernel \<Rightarrow> crypt_opv \<Rightarrow> ('c, 'h) jump + ('c, 'h) run
     \<Rightarrow> (int \<times> ('c, 'h) run) option" where
  "after_loop K copv res =
     (case res of
        Inl j \<Rightarrow> leave j
      | Inr r2 \<Rightarrow>
          (case hash_final_step K copv r2 of
             Inl j \<Rightarrow> leave j
           | Inr r3 \<Rightarrow> leave (Out, 0, r3)))"

text \<open>\<^verbatim>\<open>crypto_runv\<close> from the allocation of the page on.\<close>

definition runv_locked ::
  "('c, 'h) kernel \<Rightarrow> crypt_opv \<Rightarrow> ('c, 'h) run \<Rightarrow> (int \<times> ('c, 'h) run) option" where
  "runv_locked K copv r =
     (if \<not> get_free_page_ok K then leave (Out_unlock, - ENOMEM, r)
      else
        (case hash_init_step K (emit Get_free_page r) of
           Inl j \<Rightarrow> leave j
         | Inr r1 \<Rightarrow>
             after_loop K copv
               (iovec_loop K (op copv) (blocksize_of K r1) (iovec copv)
                  (set_iv_step K copv r1))))"

text \<open>
  What a call comes to: it returns \<open>ret\<close> and leaves a state, or its behaviour is undefined.
  That is so when it divides by zero, and when the cursor it got is \<open>Head\<close>: the test
  \<^verbatim>\<open>if (!ses_ptr)\<close> lets it pass, and every way on from there reads or writes through it
  (\<^verbatim>\<open>ses_ptr->tfm\<close>, \<^verbatim>\<open>ses_ptr->hash_tfm\<close>, \<^verbatim>\<open>up(&ses_ptr->sem)\<close>), where there is no
  session.
\<close>

datatype 's result = Ret int 's | Undefined

text \<open>
  The session the cursor \<open>Entry i\<close> points to, as \<^verbatim>\<open>crypto_runv\<close> finds it, and the state
  once the call has worked on it in place.
\<close>

definition enter :: "('c, 'h) state \<Rightarrow> nat \<Rightarrow> crypt_opv \<Rightarrow> ('c, 'h) run" where
  "enter st i copv =
     \<lparr>r_ses = fcr_list st ! i, r_dst = dst copv, r_umem = umem st, r_trace = trace st\<rparr>"

definition commit :: "('c, 'h) state \<Rightarrow> nat \<Rightarrow> ('c, 'h) run \<Rightarrow> ('c, 'h) state" where
  "commit st i r =
     st\<lparr>fcr_list := (fcr_list st)[i := r_ses r], umem := r_umem r, trace := r_trace r\<rparr>"

definition crypto_runv ::
  "('c, 'h) kernel \<Rightarrow> crypt_opv \<Rightarrow> ('c, 'h) state \<Rightarrow> ('c, 'h) state result" where
  "crypto_runv K copv st =
     (if op copv \<noteq> COP_ENCRYPT K \<and> op copv \<noteq> COP_DECRYPT K then Ret (- EINVAL) st
      else
        (case crypto_get_session_by_sid st (ses copv) of
           NULL \<Rightarrow> Ret (- EINVAL) st
         | Head \<Rightarrow> Undefined
         | Entry i \<Rightarrow>
             (case runv_locked K copv (enter st i copv) of
                None \<Rightarrow> Undefined
              | Some (ret, r) \<Rightarrow> Ret ret (commit st i r))))"

text \<open>\<^verbatim>\<open>crypto_run\<close>: one segment with both flags.\<close>

definition crypto_run ::
  "('c, 'h) kernel \<Rightarrow> crypt_op \<Rightarrow> ('c, 'h) state \<Rightarrow> ('c, 'h) state result" where
  "crypto_run K cop st =
     crypto_runv K
       \<lparr>op = crypt_op.op cop, ses = crypt_op.ses cop,
        iovec = [\<lparr>src = crypt_op.src cop, len = crypt_op.len cop,
                  op_flags = IOP_CIPHER K OR IOP_HASH K\<rparr>],
        dst = crypt_op.dst cop, mac = crypt_op.mac cop, iv = crypt_op.iv cop\<rparr> st"

section \<open>Notions used in the statements\<close>

text \<open>The return value and the state of a result.\<close>

fun ret_of :: "'s result \<Rightarrow> int option" where
  "ret_of (Ret ret s) = Some ret"
| "ret_of Undefined = None"

fun state_of :: "'s result \<Rightarrow> 's option" where
  "state_of (Ret ret s) = Some s"
| "state_of Undefined = None"

text \<open>The state a block ends in, whether it jumps or falls through.\<close>

fun run_of :: "('c, 'h) jump + ('c, 'h) run \<Rightarrow> ('c, 'h) run" where
  "run_of (Inl (l, ret, r)) = r"
| "run_of (Inr r) = r"

text \<open>A sequence of calls of \<^verbatim>\<open>crypto_create_session\<close> on one table, each with its draws.\<close>

fun create_sessions ::
  "('c, 'h) kernel \<Rightarrow> (u32 list \<times> session_op) list \<Rightarrow> ('c, 'h) state
     \<Rightarrow> ('c, 'h) state option" where
  "create_sessions K [] st = Some st"
| "create_sessions K ((rnd, sop) # reqs) st =
     (case crypto_create_session K rnd sop st of
        None \<Rightarrow> None
      | Some (ret, sop', st') \<Rightarrow> create_sessions K reqs st')"







text \<open>
  The cipher transform after the calls of a trace that change it, starting from \<open>c\<close>:
  \<^verbatim>\<open>crypto_blkcipher_set_iv\<close>, \<^verbatim>\<open>crypto_blkcipher_encrypt\<close> and
  \<^verbatim>\<open>crypto_blkcipher_decrypt\<close>, each with the bytes it was given.
\<close>

fun cipher_after :: "('c, 'h) kernel \<Rightarrow> 'c \<Rightarrow> event list \<Rightarrow> 'c" where
  "cipher_after K c [] = c"
| "cipher_after K c (Set_iv v # es) = cipher_after K (crypto_blkcipher_set_iv K c v) es"
| "cipher_after K c (Encrypt p q # es) =
     cipher_after K (fst (snd (crypto_blkcipher_encrypt K c p))) es"
| "cipher_after K c (Decrypt q p # es) =
     cipher_after K (fst (snd (crypto_blkcipher_decrypt K c q))) es"
| "cipher_after K c (e # es) = cipher_after K c es"

text \<open>
  A state \<open>r'\<close> that comes after \<open>r\<close> in a call: it has made more calls, its session has the
  same \<open>sid\<close>, and its cipher transform, if there is one, is that of \<open>r\<close> after these calls.
\<close>

definition follows :: "('c, 'h) kernel \<Rightarrow> ('c, 'h) run \<Rightarrow> ('c, 'h) run \<Rightarrow> bool" where
  "follows K r r' =
     (\<exists>evs. r_trace r' = r_trace r @ evs \<and>
        tfm (r_ses r') = map_option (\<lambda>c. cipher_after K c evs) (tfm (r_ses r)) \<and>
        sid (r_ses r') = sid (r_ses r))"

text \<open>
  Two segments that differ at most in flags for which the session \<open>e\<close> has no transform.
\<close>

definition same_but_unused_flags ::
  "('c, 'h) kernel \<Rightarrow> ('c, 'h) csession \<Rightarrow> crypt_iovec \<Rightarrow> crypt_iovec \<Rightarrow> bool" where
  "same_but_unused_flags K e a b =
     (src a = src b \<and> len a = len b \<and>
      (tfm e \<noteq> None \<longrightarrow>
         (op_flags a AND IOP_CIPHER K \<noteq> 0) = (op_flags b AND IOP_CIPHER K \<noteq> 0)) \<and>
      (hash_tfm e \<noteq> None \<longrightarrow>
         (op_flags a AND IOP_HASH K \<noteq> 0) = (op_flags b AND IOP_HASH K \<noteq> 0)))"

section \<open>An example kernel\<close>

text \<open>
  A kernel with one cipher of block size 4 and one hash. The cipher adds the sum of its IV
  to every byte, and the ciphertext of a call is the IV of the next. The hash keeps what it
  is given; its digest is the length and the sum of that.
\<close>

definition demo_kernel :: "(byte list, byte list) kernel" where
  "demo_kernel =
     \<lparr>COP_ENCRYPT = 0, COP_DECRYPT = 1, IOP_CIPHER = 1, IOP_HASH = 2,
      CRYPTO_CIPHER_MAX_KEY_LEN = 64,
      CRYPTO_HMAC_MAX_KEY_LEN = 512, enable_stats = True, kmalloc_ok = True,
      get_free_page_ok = True,
      crypto_alloc_blkcipher = (\<lambda>n. if n = ''cbc(aes)'' then Some [] else None),
      crypto_blkcipher_alg = (\<lambda>c. Some (16, 32)),
      crypto_blkcipher_setkey = (\<lambda>c k. (0, c)),
      crypto_blkcipher_blocksize = (\<lambda>c. 4),
      crypto_blkcipher_ivsize = (\<lambda>c. 4),
      crypto_blkcipher_set_iv = (\<lambda>c v. v),
      crypto_blkcipher_encrypt =
        (\<lambda>c d. (0, map (\<lambda>b. b + sum_list c) d, map (\<lambda>b. b + sum_list c) d)),
      crypto_blkcipher_decrypt = (\<lambda>c d. (0, d, map (\<lambda>b. b - sum_list c) d)),
      crypto_alloc_hash = (\<lambda>n. if n = ''sha1'' then Some [] else None),
      crypto_hash_setkey = (\<lambda>h k. (0, h)),
      crypto_hash_init = (\<lambda>h. (0, [])),
      crypto_hash_update = (\<lambda>h d. (0, h @ d)),
      crypto_hash_final = (\<lambda>h. (0, h, [of_nat (length h), sum_list h])),
      crypto_hash_digestsize = (\<lambda>h. 2)\<rparr>"

definition demo_session :: "(byte list, byte list) csession" where
  "demo_session =
     \<lparr>tfm = Some [], hash_tfm = Some [], sid = 7, stat = [0, 0], stat_max_size = 0,
      stat_count = 0\<rparr>"

definition demo_state :: "(byte list, byte list) state" where
  "demo_state = \<lparr>fcr_list = [demo_session], umem = (\<lambda>a. of_nat a), trace = []\<rparr>"

definition demo_sop :: session_op where
  "demo_sop =
     \<lparr>cipher = CRYPTO_AES_CBC, mac = CRYPTO_SHA1, keylen = 16, key = 100, mackeylen = 0,
      mackey = 0, ses = 0\<rparr>"

definition demo_copv :: crypt_opv where
  "demo_copv =
     \<lparr>op = 0, ses = 7,
      iovec = [\<lparr>src = 8, len = 4, op_flags = 3\<rparr>, \<lparr>src = 12, len = 8, op_flags = 3\<rparr>],
      dst = 0, mac = 20, iv = 0\<rparr>"

definition demo_md5_sop :: session_op where
  "demo_md5_sop =
     \<lparr>cipher = CRYPTO_AES_CBC, mac = CRYPTO_MD5, keylen = 16, key = 100, mackeylen = 0,
      mackey = 0, ses = 0\<rparr>"

definition demo_reqs :: "(u32 list \<times> session_op) list" where
  "demo_reqs = [([7, 7, 8], demo_sop), ([8, 7, 9], demo_sop), ([1], demo_md5_sop)]"

definition demo_odd_copv :: crypt_opv where
  "demo_odd_copv =
     \<lparr>op = 0, ses = 7, iovec = [\<lparr>src = 8, len = 7, op_flags = 3\<rparr>],
      dst = 0, mac = 20, iv = 0\<rparr>"

definition demo_hash_session :: "(byte list, byte list) csession" where
  "demo_hash_session =
     \<lparr>tfm = None, hash_tfm = Some [], sid = 7, stat = [0, 0], stat_max_size = 0,
      stat_count = 0\<rparr>"

definition demo_hash_state :: "(byte list, byte list) state" where
  "demo_hash_state = \<lparr>fcr_list = [demo_hash_session], umem = (\<lambda>a. of_nat a), trace = []\<rparr>"

definition demo_cipher_flag_copv :: crypt_opv where
  "demo_cipher_flag_copv =
     \<lparr>op = 0, ses = 7, iovec = [\<lparr>src = 8, len = 5, op_flags = 1\<rparr>],
      dst = 0, mac = 20, iv = 0\<rparr>"

definition demo_mis_copv :: crypt_opv where
  "demo_mis_copv =
     \<lparr>op = 0, ses = 7,
      iovec = [\<lparr>src = 8, len = 4, op_flags = 3\<rparr>] @ \<lparr>src = 12, len = 7, op_flags = 3\<rparr> #
              [\<lparr>src = 20, len = 4, op_flags = 3\<rparr>],
      dst = 0, mac = 20, iv = 0\<rparr>"

definition demo_mis_r1 :: "(byte list, byte list) run" where
  "demo_mis_r1 =
     run_of (hash_init_step demo_kernel (emit Get_free_page (enter demo_state 0 demo_mis_copv)))"

definition demo_mis_r2 :: "(byte list, byte list) run" where
  "demo_mis_r2 =
     run_of (iovec_loop demo_kernel 0 4 [\<lparr>src = 8, len = 4, op_flags = 3\<rparr>]
               (set_iv_step demo_kernel demo_mis_copv demo_mis_r1))"

definition demo_iv_copv :: crypt_opv where
  "demo_iv_copv =
     \<lparr>op = 0, ses = 7,
      iovec = [\<lparr>src = 8, len = 4, op_flags = 3\<rparr>], dst = 0, mac = 20, iv = 2\<rparr>"

definition demo_nohash_copv :: crypt_opv where
  "demo_nohash_copv =
     \<lparr>op = 0, ses = 7,
      iovec = [\<lparr>src = 8, len = 4, op_flags = 1\<rparr>], dst = 0, mac = 20, iv = 0\<rparr>"



fun state_after :: "'s result \<Rightarrow> 's \<Rightarrow> 's" where
  "state_after (Ret ret s) s0 = s"
| "state_after Undefined s0 = s0"

definition demo_state_1 :: "(byte list, byte list) state" where
  "demo_state_1 = state_after (crypto_runv demo_kernel demo_iv_copv demo_state) demo_state"

definition demo_r1 :: "(byte list, byte list) run" where
  "demo_r1 =
     run_of (hash_init_step demo_kernel (emit Get_free_page (enter demo_state_1 0 demo_copv)))"

section \<open>Properties of the session table\<close>

subsection \<open>The cursor of a walk\<close>

lemma get_session_walk_not_NULL: "get_session_walk i es s \<noteq> NULL"
  by (induction es arbitrary: i) auto

lemma get_session_walk_Head:
  "get_session_walk i es s = Head \<longleftrightarrow> s \<notin> sid ` set es"
  by (induction es arbitrary: i) auto

lemma get_session_walk_Entry:
  "get_session_walk i es s = Entry j \<Longrightarrow>
   i \<le> j \<and> j - i < length es \<and> sid (es ! (j - i)) = s"
proof (induction es arbitrary: i)
  case Nil
  then show ?case by simp
next
  case (Cons e es)
  show ?case
  proof (cases "sid e = s")
    case True
    with Cons.prems show ?thesis by simp
  next
    case False
    with Cons.prems have "get_session_walk (Suc i) es s = Entry j" by simp
    from Cons.IH [OF this]
    have "Suc i \<le> j" "j - Suc i < length es" "sid (es ! (j - Suc i)) = s"
      by auto
    then show ?thesis by (simp add: Suc_diff_le nth_Cons')
  qed
qed

lemma finish_session_walk_not_NULL: "fst (finish_session_walk i es s) \<noteq> NULL"
  by (induction es arbitrary: i) (auto split: prod.splits, metis fst_conv)

lemma crypto_finish_session_ret: "fst (crypto_finish_session st s) = 0"
  using finish_session_walk_not_NULL [of 0 "fcr_list st" s]
  by (auto simp: crypto_finish_session_def split: prod.splits)

lemma finish_session_walk_absent:
  "s \<notin> sid ` set es \<Longrightarrow> finish_session_walk i es s = (Head, es, [])"
  by (induction es arbitrary: i) auto

lemma finish_session_walk_present:
  "s \<in> sid ` set es \<Longrightarrow>
   \<exists>pre e post j. es = pre @ e # post \<and> s \<notin> sid ` set pre \<and> sid e = s \<and>
     finish_session_walk i es s = (Entry j, pre @ post, crypto_destroy_session e)"
proof (induction es arbitrary: i)
  case Nil
  then show ?case by simp
next
  case (Cons a es)
  show ?case
  proof (cases "sid a = s")
    case True
    then have "a # es = [] @ a # es \<and> s \<notin> sid ` set [] \<and> sid a = s \<and>
      finish_session_walk i (a # es) s = (Entry i, [] @ es, crypto_destroy_session a)"
      by simp
    then show ?thesis by blast
  next
    case False
    with Cons.prems have "s \<in> sid ` set es" by auto
    from Cons.IH [OF this, of "Suc i"] obtain pre e post j where
      *: "es = pre @ e # post" "s \<notin> sid ` set pre" "sid e = s"
         "finish_session_walk (Suc i) es s = (Entry j, pre @ post, crypto_destroy_session e)"
      by blast
    with False
    have "a # es = (a # pre) @ e # post \<and> s \<notin> sid ` set (a # pre) \<and> sid e = s \<and>
      finish_session_walk i (a # es) s = (Entry j, (a # pre) @ post, crypto_destroy_session e)"
      by auto
    then show ?thesis by blast
  qed
qed

text \<open>
  C1. A request whose session id is in no session of the table should be turned away with
  an error before anything else happens. In the code the lookup hands back the list head
  as if it were a session, the test \<^verbatim>\<open>if (!ses_ptr)\<close> does not fire, and the call goes on
  to use that pointer: here, on a table whose only session has id 7, for the id 9.
\<close>

theorem lookup_miss_yields_list_head:
  "crypto_get_session_by_sid demo_state 9 = Head \<and>
   crypto_runv demo_kernel (demo_copv\<lparr>ses := 9\<rparr>) demo_state = Undefined"
  by (simp add: crypto_runv_def crypto_get_session_by_sid_def demo_state_def demo_copv_def
      demo_session_def demo_kernel_def)

text \<open>
  C2. Destroying an id that no session has should return \<^verbatim>\<open>-ENOENT\<close> and leave the table
  as it is. In the code the cursor is not \<^verbatim>\<open>NULL\<close> after the walk, so the call returns 0;
  the table is left as it is.
\<close>

theorem finish_miss_returns_zero:
  "fst (crypto_finish_session demo_state 9) = 0 \<and>
   fcr_list (snd (crypto_finish_session demo_state 9)) = [demo_session]"
  by code_simp

subsection \<open>Creating sessions\<close>

lemma sid_in_use_iff: "sid_in_use s es \<longleftrightarrow> s \<in> sid ` set es"
  by (induction es) auto

lemma restart_find: "restart s rnd es = find (\<lambda>x. \<not> sid_in_use x es) (s # rnd)"
  by (induction rnd arbitrary: s) auto

lemma restart_fresh: "restart s rnd es = Some x \<Longrightarrow> x \<notin> sid ` set es"
proof (induction rnd arbitrary: s)
  case Nil
  then show ?case by (simp add: sid_in_use_iff split: if_splits)
next
  case (Cons r rnd)
  then show ?case by (simp add: sid_in_use_iff split: if_splits)
qed

lemma restart_returns:
  "\<exists>x \<in> set (s # rnd). x \<notin> sid ` set es \<Longrightarrow> \<exists>y. restart s rnd es = Some y"
  unfolding restart_find sid_in_use_iff
  by (metis find_None_iff not_Some_eq)

lemma create_session_table:
  assumes "crypto_create_session K rnd sop st = Some (ret, sop', st')"
  shows "(ret \<noteq> 0 \<and> fcr_list st' = fcr_list st) \<or>
         (ret = 0 \<and> (\<exists>e. fcr_list st' = e # fcr_list st \<and> sid e = session_op.ses sop' \<and>
             find (\<lambda>x. x \<notin> sid ` set (fcr_list st)) rnd = Some (sid e)))"
  using assms
  by (auto simp: crypto_create_session_def EINVAL_def ENOMEM_def setup_cipher_def
      setup_hash_def Let_def restart_find sid_in_use_iff
      split: if_splits option.splits prod.splits flow.splits list.splits)

lemma create_session_distinct:
  assumes "crypto_create_session K rnd sop st = Some (ret, sop', st')"
    and "distinct (map sid (fcr_list st))"
  shows "distinct (map sid (fcr_list st'))"
  using create_session_table [OF assms(1)] assms(2)
  by (auto simp: find_Some_iff)

text \<open>
  C3. A call of \<^verbatim>\<open>crypto_create_session\<close> that returns an error should have released
  every transform it allocated. When the hash cannot be allocated the code returns at once
  and the cipher allocated before stays allocated: here the example kernel has no md5, the
  call returns \<^verbatim>\<open>-EINVAL\<close>, no session is inserted, and \<^verbatim>\<open>crypto_free_blkcipher\<close> is not
  among the calls made.
\<close>

theorem hash_alloc_failure_leaks_cipher:
  "map_option (\<lambda>(ret, sop', st'). (ret, fcr_list st', trace st'))
     (crypto_create_session demo_kernel [9] demo_md5_sop demo_state) =
   Some (- EINVAL, [demo_session],
         [Alloc_blkcipher ''cbc(aes)'',
          Blkcipher_setkey [100, 101, 102, 103, 104, 105, 106, 107, 108, 109, 110, 111, 112,
                            113, 114, 115]])"
  by code_simp

text \<open>
  C8. Whatever sequence of calls of \<^verbatim>\<open>crypto_create_session\<close> runs on a table whose
  session ids are distinct (the empty table among them), the ids are distinct afterwards:
  each new id is the first draw that the walk finds in no session of the table
  (\<open>create_session_table\<close>, \<open>restart_find\<close>).
\<close>

theorem session_ids_unique:
  assumes "distinct (map sid (fcr_list st))"
    and "create_sessions K reqs st = Some st'"
  shows "distinct (map sid (fcr_list st'))"
  using assms
proof (induction reqs arbitrary: st)
  case Nil
  then show ?case by simp
next
  case (Cons req reqs)
  obtain rnd sop where req: "req = (rnd, sop)" by (cases req)
  from Cons.prems(2) req obtain ret sop' st1 where
    step: "crypto_create_session K rnd sop st = Some (ret, sop', st1)"
    and rest: "create_sessions K reqs st1 = Some st'"
    by (auto split: option.splits)
  from create_session_distinct [OF step Cons.prems(1)] rest show ?case
    by (rule Cons.IH)
qed

theorem session_ids_unique_witness:
  "distinct (map sid (fcr_list demo_state)) \<and>
   (\<exists>st'. create_sessions demo_kernel demo_reqs demo_state = Some st' \<and>
      distinct (map sid (fcr_list st')))"
proof -
  have h: "distinct (map sid (fcr_list demo_state))"
    by code_simp
  have "case create_sessions demo_kernel demo_reqs demo_state of
          None \<Rightarrow> False | Some st' \<Rightarrow> True"
    by code_simp
  then obtain st' where r: "create_sessions demo_kernel demo_reqs demo_state = Some st'"
    by (auto split: option.splits)
  from session_ids_unique [OF h r] h r show ?thesis
    by blast
qed

section \<open>Properties of a request\<close>

subsection \<open>Bookkeeping\<close>

declare segment_while.simps [simp del]

lemma emit_simps [simp]:
  "r_trace (emit e r) = r_trace r @ [e]"
  "r_ses (emit e r) = r_ses r"
  "r_dst (emit e r) = r_dst r"
  "r_umem (emit e r) = r_umem r"
  by (simp_all add: emit_def)

lemma update_stats_simps [simp]:
  "r_trace (update_stats K opr iov r) = r_trace r"
  "tfm (r_ses (update_stats K opr iov r)) = tfm (r_ses r)"
  "hash_tfm (r_ses (update_stats K opr iov r)) = hash_tfm (r_ses r)"
  "r_umem (update_stats K opr iov r) = r_umem r"
  "r_dst (update_stats K opr iov r) = r_dst r"
  by (simp_all add: update_stats_def)

lemma enter_simps [simp]:
  "r_ses (enter st i copv) = fcr_list st ! i"
  "r_dst (enter st i copv) = dst copv"
  "r_umem (enter st i copv) = umem st"
  "r_trace (enter st i copv) = trace st"
  by (simp_all add: enter_def)

lemma commit_simps [simp]:
  "umem (commit st i r) = r_umem r"
  "trace (commit st i r) = r_trace r"
  "fcr_list (commit st i r) = (fcr_list st)[i := r_ses r]"
  by (simp_all add: commit_def)

lemma Inr_run_of: "(case x of Inl j \<Rightarrow> False | Inr r \<Rightarrow> True) \<Longrightarrow> x = Inr (run_of x)"
  by (cases x) auto

lemma copy_from_user_copy_to_user:
  "copy_from_user (copy_to_user m p bs) p (length bs) = bs"
  by (auto simp: copy_from_user_def copy_to_user_def intro!: nth_equalityI)

subsection \<open>One chunk\<close>

lemma chunk_keeps_tfm:
  "chunk K opr f s n r = Inr r' \<Longrightarrow> (tfm (r_ses r') = None) = (tfm (r_ses r) = None)"
  by (auto simp: chunk_def hash_step_def encrypt_step_def decrypt_step_def Let_def
      split: option.splits prod.splits sum.splits if_splits)

lemma chunk_keeps_hash_tfm:
  "chunk K opr f s n r = Inr r' \<Longrightarrow>
   (hash_tfm (r_ses r') = None) = (hash_tfm (r_ses r) = None)"
  by (auto simp: chunk_def hash_step_def encrypt_step_def decrypt_step_def Let_def
      split: option.splits prod.splits sum.splits if_splits)

lemma chunk_Inl:
  "chunk K opr f s n r = Inl (l, ret, r') \<Longrightarrow> l = Out \<and> ret \<noteq> 0"
  by (auto simp: chunk_def hash_step_def encrypt_step_def decrypt_step_def Let_def
      split: option.splits prod.splits sum.splits if_splits)

lemma chunk_no_hash:
  "f AND IOP_HASH K = 0 \<Longrightarrow> chunk K opr f s n r = Inr r' \<Longrightarrow>
   hash_tfm (r_ses r') = hash_tfm (r_ses r)"
  by (auto simp: chunk_def hash_step_def encrypt_step_def decrypt_step_def Let_def
      split: option.splits prod.splits sum.splits if_splits)

lemma chunk_flags_cong:
  assumes "tfm (r_ses r) \<noteq> None \<longrightarrow> (fa AND IOP_CIPHER K \<noteq> 0) = (fb AND IOP_CIPHER K \<noteq> 0)"
    and "hash_tfm (r_ses r) \<noteq> None \<longrightarrow> (fa AND IOP_HASH K \<noteq> 0) = (fb AND IOP_HASH K \<noteq> 0)"
  shows "chunk K opr fa s n r = chunk K opr fb s n r"
  using assms
  by (auto simp: chunk_def hash_step_def encrypt_step_def decrypt_step_def Let_def
      split: option.splits prod.splits sum.splits)

subsection \<open>The loops\<close>

lemma segment_while_keeps:
  "segment_while K opr iov off r = Inr r' \<Longrightarrow>
   (tfm (r_ses r') = None) = (tfm (r_ses r) = None) \<and>
   (hash_tfm (r_ses r') = None) = (hash_tfm (r_ses r) = None)"
proof (induction K opr iov off r rule: segment_while.induct)
  case (1 K opr iov off r)
  show ?case
  proof (cases "off < len iov")
    case False
    with "1.prems" show ?thesis
      by (subst (asm) segment_while.simps) simp
  next
    case True
    define nbytes where "nbytes = len iov - off"
    define bufsize where "bufsize = (if PAGE_SIZE < len iov then PAGE_SIZE else len iov)"
    define n where "n = (if bufsize < nbytes then bufsize else nbytes)"
    have unfold: "segment_while K opr iov off r =
      (case chunk K opr (op_flags iov) (src iov + off) n r of
         Inl j \<Rightarrow> Inl j
       | Inr r' \<Rightarrow> segment_while K opr iov (off + n) r')"
      using True unfolding n_def bufsize_def nbytes_def
      by (subst segment_while.simps) (simp only: Let_def if_True)
    from "1.prems" unfold obtain r1 where
      c: "chunk K opr (op_flags iov) (src iov + off) n r = Inr r1"
      and rest: "segment_while K opr iov (off + n) r1 = Inr r'"
      by (auto split: sum.splits)
    from "1.IH" [OF True nbytes_def bufsize_def n_def c rest]
      chunk_keeps_tfm [OF c] chunk_keeps_hash_tfm [OF c]
    show ?thesis by simp
  qed
qed

lemma segment_keeps:
  "segment K opr bs iov r = Inr r' \<Longrightarrow>
   (tfm (r_ses r') = None) = (tfm (r_ses r) = None) \<and>
   (hash_tfm (r_ses r') = None) = (hash_tfm (r_ses r) = None)"
  by (auto simp: segment_def split: if_splits sum.splits dest: segment_while_keeps)

lemma iovec_loop_keeps:
  "iovec_loop K opr bs iovs r = Inr r' \<Longrightarrow>
   (tfm (r_ses r') = None) = (tfm (r_ses r) = None) \<and>
   (hash_tfm (r_ses r') = None) = (hash_tfm (r_ses r) = None)"
proof (induction iovs arbitrary: r)
  case Nil
  then show ?case by simp
next
  case (Cons iov iovs)
  from Cons.prems obtain r1 where
    s: "segment K opr bs iov r = Inr r1" and l: "iovec_loop K opr bs iovs r1 = Inr r'"
    by (auto split: sum.splits)
  from Cons.IH [OF l] segment_keeps [OF s] show ?case by simp
qed

lemma iovec_loop_append:
  "iovec_loop K opr bs (xs @ ys) r =
     (case iovec_loop K opr bs xs r of
        Inl j \<Rightarrow> Inl j
      | Inr r' \<Rightarrow> iovec_loop K opr bs ys r')"
  by (induction xs arbitrary: r) (auto split: sum.splits)

lemma segment_while_Inl_no_hash:
  "(segment_while K opr iov off r = Inl (l, ret, r') \<longrightarrow> l = Out \<and> ret \<noteq> 0) \<and>
   (op_flags iov AND IOP_HASH K = 0 \<longrightarrow> segment_while K opr iov off r = Inr r' \<longrightarrow>
      hash_tfm (r_ses r') = hash_tfm (r_ses r))"
proof (induction K opr iov off r rule: segment_while.induct)
  case (1 K opr iov off r)
  show ?case
  proof (cases "off < len iov")
    case False
    then have "segment_while K opr iov off r = Inr r"
      by (subst segment_while.simps) simp
    then show ?thesis by simp
  next
    case True
    define nbytes where "nbytes = len iov - off"
    define bufsize where "bufsize = (if PAGE_SIZE < len iov then PAGE_SIZE else len iov)"
    define n where "n = (if bufsize < nbytes then bufsize else nbytes)"
    have unfold: "segment_while K opr iov off r =
      (case chunk K opr (op_flags iov) (src iov + off) n r of
         Inl j \<Rightarrow> Inl j
       | Inr r' \<Rightarrow> segment_while K opr iov (off + n) r')"
      using True unfolding n_def bufsize_def nbytes_def
      by (subst segment_while.simps) (simp only: Let_def if_True)
    show ?thesis
    proof (cases "chunk K opr (op_flags iov) (src iov + off) n r")
      case (Inl j)
      with unfold chunk_Inl [of K opr "op_flags iov" "src iov + off" n r l ret r']
      show ?thesis by simp
    next
      case (Inr r1)
      from "1.IH" [OF True nbytes_def bufsize_def n_def Inr] unfold Inr
        chunk_no_hash [OF _ Inr]
      show ?thesis by simp
    qed
  qed
qed

lemma segment_Inl:
  "segment K opr bs iov r = Inl (l, ret, r') \<Longrightarrow> l = Divide_error \<or> ret \<noteq> 0"
  using segment_while_Inl_no_hash [of K opr iov 0 r l ret r']
  by (auto simp: segment_def EINVAL_def split: if_splits sum.splits)

lemma segment_no_hash:
  "op_flags iov AND IOP_HASH K = 0 \<Longrightarrow> segment K opr bs iov r = Inr r' \<Longrightarrow>
   hash_tfm (r_ses r') = hash_tfm (r_ses r)"
  using segment_while_Inl_no_hash [of K opr iov 0 r]
  by (auto simp: segment_def split: if_splits sum.splits)

lemma iovec_loop_Inl:
  "iovec_loop K opr bs iovs r = Inl (l, ret, r') \<Longrightarrow> l = Divide_error \<or> ret \<noteq> 0"
proof (induction iovs arbitrary: r)
  case Nil
  then show ?case by simp
next
  case (Cons iov iovs)
  show ?case
  proof (cases "segment K opr bs iov r")
    case (Inl j)
    with Cons.prems segment_Inl [of K opr bs iov r l ret r'] show ?thesis by simp
  next
    case (Inr r1)
    with Cons.prems have "iovec_loop K opr bs iovs r1 = Inl (l, ret, r')" by simp
    then show ?thesis by (rule Cons.IH)
  qed
qed

lemma iovec_loop_no_hash:
  "\<forall>iov \<in> set iovs. op_flags iov AND IOP_HASH K = 0 \<Longrightarrow>
   iovec_loop K opr bs iovs r = Inr r' \<Longrightarrow> hash_tfm (r_ses r') = hash_tfm (r_ses r)"
proof (induction iovs arbitrary: r)
  case Nil
  then show ?case by simp
next
  case (Cons iov iovs)
  from Cons.prems(2) obtain r1 where
    s: "segment K opr bs iov r = Inr r1" and l: "iovec_loop K opr bs iovs r1 = Inr r'"
    by (auto split: sum.splits)
  from Cons.prems(1) have "op_flags iov AND IOP_HASH K = 0"
    and rest: "\<forall>iov \<in> set iovs. op_flags iov AND IOP_HASH K = 0"
    by simp_all
  from segment_no_hash [OF this(1) s] Cons.IH [OF rest l] show ?case by simp
qed

lemma hash_init_step_keeps:
  "hash_init_step K r = Inr r' \<Longrightarrow>
   tfm (r_ses r') = tfm (r_ses r) \<and> r_umem r' = r_umem r \<and> r_dst r' = r_dst r \<and>
   (hash_tfm (r_ses r') = None) = (hash_tfm (r_ses r) = None)"
  by (auto simp: hash_init_step_def Let_def split: option.splits prod.splits if_splits)

lemma set_iv_step_keeps:
  "(tfm (r_ses (set_iv_step K copv r)) = None) = (tfm (r_ses r) = None) \<and>
   hash_tfm (r_ses (set_iv_step K copv r)) = hash_tfm (r_ses r)"
  by (auto simp: set_iv_step_def Let_def split: option.splits)

lemma segment_while_flags_cong:
  assumes "same_but_unused_flags K e a b"
    and "(tfm (r_ses r) = None) = (tfm e = None)"
    and "(hash_tfm (r_ses r) = None) = (hash_tfm e = None)"
  shows "segment_while K opr a off r = segment_while K opr b off r"
  using assms
proof (induction K opr a off r rule: segment_while.induct)
  case (1 K opr a off r)
  from "1.prems"(1) have same: "src a = src b" "len a = len b"
    by (simp_all add: same_but_unused_flags_def)
  show ?case
  proof (cases "off < len a")
    case False
    with same show ?thesis
      by (subst (1 2) segment_while.simps) simp
  next
    case True
    define nbytes where "nbytes = len a - off"
    define bufsize where "bufsize = (if PAGE_SIZE < len a then PAGE_SIZE else len a)"
    define n where "n = (if bufsize < nbytes then bufsize else nbytes)"
    have unfold_a: "segment_while K opr a off r =
      (case chunk K opr (op_flags a) (src a + off) n r of
         Inl j \<Rightarrow> Inl j
       | Inr r' \<Rightarrow> segment_while K opr a (off + n) r')"
      using True unfolding n_def bufsize_def nbytes_def
      by (subst segment_while.simps) (simp only: Let_def if_True)
    have unfold_b: "segment_while K opr b off r =
      (case chunk K opr (op_flags b) (src a + off) n r of
         Inl j \<Rightarrow> Inl j
       | Inr r' \<Rightarrow> segment_while K opr b (off + n) r')"
      using True unfolding n_def bufsize_def nbytes_def same
      by (subst segment_while.simps) (simp only: Let_def if_True)
    have c: "chunk K opr (op_flags a) (src a + off) n r =
             chunk K opr (op_flags b) (src a + off) n r"
      using "1.prems" by (intro chunk_flags_cong) (auto simp: same_but_unused_flags_def)
    show ?thesis
    proof (cases "chunk K opr (op_flags a) (src a + off) n r")
      case (Inl j)
      moreover from c Inl have "chunk K opr (op_flags b) (src a + off) n r = Inl j"
        by simp
      ultimately show ?thesis by (simp add: unfold_a unfold_b)
    next
      case (Inr r1)
      from chunk_keeps_tfm [OF Inr] chunk_keeps_hash_tfm [OF Inr] "1.prems"
      have "segment_while K opr a (off + n) r1 = segment_while K opr b (off + n) r1"
        by (intro "1.IH" [OF True nbytes_def bufsize_def n_def Inr]) simp_all
      moreover from c Inr have "chunk K opr (op_flags b) (src a + off) n r = Inr r1"
        by simp
      ultimately show ?thesis using Inr by (simp add: unfold_a unfold_b)
    qed
  qed
qed

lemma segment_flags_cong:
  assumes "same_but_unused_flags K e a b"
    and "(tfm (r_ses r) = None) = (tfm e = None)"
    and "(hash_tfm (r_ses r) = None) = (hash_tfm e = None)"
  shows "segment K opr bs a r = segment K opr bs b r"
proof -
  from assms(1) have l: "len a = len b"
    by (simp add: same_but_unused_flags_def)
  then have u: "update_stats K opr a r' = update_stats K opr b r'" for r' :: "('a, 'b) run"
    by (simp add: update_stats_def)
  note w = segment_while_flags_cong [OF assms, of opr 0]
  show ?thesis
  proof (cases "tfm (r_ses r) = None")
    case True
    then show ?thesis
      by (simp add: segment_def w u split: sum.splits)
  next
    case False
    with assms
    have "(op_flags a AND IOP_CIPHER K \<noteq> 0) = (op_flags b AND IOP_CIPHER K \<noteq> 0)"
      by (auto simp: same_but_unused_flags_def)
    then show ?thesis
      by (simp add: segment_def w u l split: sum.splits)
  qed
qed

lemma iovec_loop_flags_cong:
  assumes "list_all2 (same_but_unused_flags K e) as bs"
    and "(tfm (r_ses r) = None) = (tfm e = None)"
    and "(hash_tfm (r_ses r) = None) = (hash_tfm e = None)"
  shows "iovec_loop K opr blocksize as r = iovec_loop K opr blocksize bs r"
  using assms
proof (induction as bs arbitrary: r rule: list_all2_induct)
  case Nil
  then show ?case by simp
next
  case (Cons a as b bs)
  from segment_flags_cong [OF Cons.hyps(1) Cons.prems]
  have s: "segment K opr blocksize a r = segment K opr blocksize b r" .
  show ?case
  proof (cases "segment K opr blocksize a r")
    case (Inl j)
    moreover from s Inl have "segment K opr blocksize b r = Inl j"
      by simp
    ultimately show ?thesis by simp
  next
    case (Inr r1)
    from segment_keeps [OF Inr] Cons.prems
    have "iovec_loop K opr blocksize as r1 = iovec_loop K opr blocksize bs r1"
      by (intro Cons.IH) simp_all
    moreover from s Inr have "segment K opr blocksize b r = Inr r1"
      by simp
    ultimately show ?thesis using Inr by simp
  qed
qed

lemma hash_final_step_iovec_update [simp]:
  "hash_final_step K (copv\<lparr>iovec := iovs\<rparr>) r = hash_final_step K copv r"
  by (simp add: hash_final_step_def Let_def split: option.splits prod.splits)

lemma after_loop_iovec_update [simp]:
  "after_loop K (copv\<lparr>iovec := iovs\<rparr>) res = after_loop K copv res"
  by (simp add: after_loop_def split: sum.splits)

lemma set_iv_step_iovec_update [simp]:
  "set_iv_step K (copv\<lparr>iovec := iovs\<rparr>) r = set_iv_step K copv r"
  by (simp add: set_iv_step_def Let_def split: option.splits)

lemma segment_Inl_pos:
  "0 < bs \<Longrightarrow> segment K opr bs iov r = Inl (l, ret, r') \<Longrightarrow> l \<noteq> Divide_error \<and> ret \<noteq> 0"
  using segment_while_Inl_no_hash [of K opr iov 0 r l ret r']
  by (auto simp: segment_def EINVAL_def split: if_splits sum.splits)

lemma iovec_loop_Inl_pos:
  "0 < bs \<Longrightarrow> iovec_loop K opr bs iovs r = Inl (l, ret, r') \<Longrightarrow>
   l \<noteq> Divide_error \<and> ret \<noteq> 0"
proof (induction iovs arbitrary: r)
  case Nil
  then show ?case by simp
next
  case (Cons iov iovs)
  show ?case
  proof (cases "segment K opr bs iov r")
    case (Inl j)
    with Cons.prems segment_Inl_pos [of bs K opr iov r l ret r'] show ?thesis by simp
  next
    case (Inr r1)
    with Cons.prems have "iovec_loop K opr bs iovs r1 = Inl (l, ret, r')" by simp
    with Cons.prems(1) show ?thesis by (rule Cons.IH)
  qed
qed

lemma hash_init_step_Inl:
  "hash_init_step K r = Inl (l, ret, r') \<Longrightarrow>
   l = Out_unlock \<and> ret \<noteq> 0 \<and> tfm (r_ses r') = tfm (r_ses r) \<and> r_umem r' = r_umem r"
  by (auto simp: hash_init_step_def Let_def split: option.splits prod.splits if_splits)

lemma leave_returns:
  "l \<noteq> Divide_error \<Longrightarrow> \<exists>r'. leave (l, ret, r) = Some (ret, r')"
  by (cases l) simp_all

lemma misaligned_loop:
  assumes "tfm (r_ses r) \<noteq> None" and "op_flags iov AND IOP_CIPHER K \<noteq> 0"
    and "0 < bs" and "len iov mod bs \<noteq> 0"
  shows "\<exists>l ret r'. iovec_loop K opr bs (pre @ iov # post) r = Inl (l, ret, r') \<and>
           l \<noteq> Divide_error \<and> ret \<noteq> 0"
proof (cases "iovec_loop K opr bs pre r")
  case (Inl j)
  obtain l ret r' where j: "j = (l, ret, r')" by (cases j)
  from iovec_loop_Inl_pos [OF assms(3) Inl [unfolded j]] Inl j show ?thesis
    by (simp add: iovec_loop_append)
next
  case (Inr r2)
  from iovec_loop_keeps [OF Inr] assms(1) have "tfm (r_ses r2) \<noteq> None"
    by simp
  with assms(2,3,4) have "segment K opr bs iov r2 = Inl (Out_unlock, - EINVAL, r2)"
    by (simp add: segment_def)
  with Inr show ?thesis
    by (simp add: iovec_loop_append EINVAL_def)
qed

lemma runv_from_primed_state:
  assumes lookup: "crypto_get_session_by_sid st (ses copv) = Entry i"
    and opr: "op copv = COP_ENCRYPT K \<or> op copv = COP_DECRYPT K"
    and cipher: "tfm (fcr_list st ! i) = Some c"
  shows "crypto_runv K copv st =
     (if \<not> get_free_page_ok K then Ret (- ENOMEM) (commit st i (enter st i copv))
      else
        (case hash_init_step K (emit Get_free_page (enter st i copv)) of
           Inl (l, ret, r) \<Rightarrow> Ret ret (commit st i r)
         | Inr r1 \<Rightarrow>
             (case after_loop K copv
                     (iovec_loop K (op copv) (crypto_blkcipher_blocksize K c) (iovec copv)
                        (if iv copv = 0 then r1
                         else emit (Set_iv (copy_from_user (umem st) (iv copv)
                                              (crypto_blkcipher_ivsize K c)))
                                (r1\<lparr>r_ses := (r_ses r1)
                                      \<lparr>tfm := Some (crypto_blkcipher_set_iv K c
                                           (copy_from_user (umem st) (iv copv)
                                              (crypto_blkcipher_ivsize K c)))\<rparr>\<rparr>))) of
                None \<Rightarrow> Undefined
              | Some (ret, r) \<Rightarrow> Ret ret (commit st i r)))) \<and>
     (\<forall>r1. hash_init_step K (emit Get_free_page (enter st i copv)) = Inr r1 \<longrightarrow>
        tfm (r_ses r1) = Some c)"
proof (intro conjI allI impI)
  fix r1
  assume "hash_init_step K (emit Get_free_page (enter st i copv)) = Inr r1"
  from hash_init_step_keeps [OF this] cipher show "tfm (r_ses r1) = Some c"
    by simp
next
  let ?r0 = "enter st i copv"
  let ?ivp = "copy_from_user (umem st) (iv copv) (crypto_blkcipher_ivsize K c)"
  have run: "crypto_runv K copv st =
     (case runv_locked K copv ?r0 of
        None \<Rightarrow> Undefined | Some (ret, r) \<Rightarrow> Ret ret (commit st i r))"
    using lookup opr by (auto simp: crypto_runv_def)
  show "crypto_runv K copv st =
     (if \<not> get_free_page_ok K then Ret (- ENOMEM) (commit st i ?r0)
      else
        (case hash_init_step K (emit Get_free_page ?r0) of
           Inl (l, ret, r) \<Rightarrow> Ret ret (commit st i r)
         | Inr r1 \<Rightarrow>
             (case after_loop K copv
                     (iovec_loop K (op copv) (crypto_blkcipher_blocksize K c) (iovec copv)
                        (if iv copv = 0 then r1
                         else emit (Set_iv ?ivp)
                                (r1\<lparr>r_ses := (r_ses r1)
                                      \<lparr>tfm := Some (crypto_blkcipher_set_iv K c ?ivp)\<rparr>\<rparr>))) of
                None \<Rightarrow> Undefined
              | Some (ret, r) \<Rightarrow> Ret ret (commit st i r))))"
  proof (cases "get_free_page_ok K")
    case False
    then show ?thesis
      unfolding run by (simp add: runv_locked_def)
  next
    case True
    show ?thesis
    proof (cases "hash_init_step K (emit Get_free_page ?r0)")
      case (Inl j)
      obtain l ret r' where j: "j = (l, ret, r')" by (cases j)
      from hash_init_step_Inl [OF Inl [unfolded j]] True Inl j show ?thesis
        unfolding run by (simp add: runv_locked_def)
    next
      case (Inr r1)
      from hash_init_step_keeps [OF Inr] cipher
      have t1: "tfm (r_ses r1) = Some c" and m1: "r_umem r1 = umem st"
        by simp_all
      have b: "blocksize_of K r1 = crypto_blkcipher_blocksize K c"
        using t1 by (simp add: blocksize_of_def)
      have s: "set_iv_step K copv r1 =
        (if iv copv = 0 then r1
         else emit (Set_iv ?ivp)
                (r1\<lparr>r_ses := (r_ses r1)\<lparr>tfm := Some (crypto_blkcipher_set_iv K c ?ivp)\<rparr>\<rparr>))"
        using t1 m1 by (simp add: set_iv_step_def Let_def)
      have "runv_locked K copv ?r0 =
        after_loop K copv
          (iovec_loop K (op copv) (blocksize_of K r1) (iovec copv) (set_iv_step K copv r1))"
        using True Inr by (simp add: runv_locked_def)
      then show ?thesis
        unfolding run b s using True Inr by simp
    qed
  qed
qed

subsection \<open>Segments that are hashed and ciphered\<close>












subsection \<open>The cipher transform from call to call\<close>

lemma cipher_after_append:
  "cipher_after K c (xs @ ys) = cipher_after K (cipher_after K c xs) ys"
  by (induction K c xs rule: cipher_after.induct) simp_all

lemma follows_refl: "follows K r r"
  by (simp add: follows_def option.map_ident)

lemma follows_trans: "follows K a b \<Longrightarrow> follows K b c \<Longrightarrow> follows K a c"
  unfolding follows_def
  by (cases "tfm (r_ses a)") (auto simp: cipher_after_append)

lemma follows_hash_step: "follows K r (run_of (hash_step K f d r))"
  by (auto simp: follows_def hash_step_def Let_def option.map_ident
      split: option.splits prod.splits)

lemma follows_encrypt_step:
  "case encrypt_step K f n d r of
     Inl (l, ret, r') \<Rightarrow> follows K r r' | Inr (r', d') \<Rightarrow> follows K r r'"
  by (auto simp: follows_def encrypt_step_def Let_def split: option.splits prod.splits)

lemma follows_decrypt_step:
  "case decrypt_step K f n d r of
     Inl (l, ret, r') \<Rightarrow> follows K r r' | Inr (r', d') \<Rightarrow> follows K r r'"
  by (auto simp: follows_def decrypt_step_def Let_def split: option.splits prod.splits)

lemma follows_emit_copy: "follows K r (emit (Copy_from_user s d) r)"
  by (simp add: follows_def option.map_ident)

lemma follows_chunk: "follows K r (run_of (chunk K opr f s n r))"
proof -
  let ?d = "copy_from_user (r_umem r) s n"
  let ?r0 = "emit (Copy_from_user s ?d) r"
  have r0: "follows K r ?r0"
    by (rule follows_emit_copy)
  show ?thesis
  proof (cases "opr = COP_ENCRYPT K")
    case True
    show ?thesis
    proof (cases "hash_step K f ?d ?r0")
      case (Inl j)
      with follows_hash_step [of K ?r0 f ?d] True r0 show ?thesis
        by (auto simp: chunk_def Let_def intro: follows_trans)
    next
      case (Inr r1)
      with follows_hash_step [of K ?r0 f ?d] r0 have r1: "follows K r r1"
        by (auto intro: follows_trans)
      from follows_encrypt_step [where K = K and f = f and n = n and d = "?d" and r = r1] r1 True Inr show ?thesis
        by (auto simp: chunk_def Let_def intro: follows_trans split: sum.splits)
    qed
  next
    case False
    show ?thesis
    proof (cases "decrypt_step K f n ?d ?r0")
      case (Inl j)
      with follows_decrypt_step [where K = K and f = f and n = n and d = "?d" and r = "?r0"] False r0 show ?thesis
        by (auto simp: chunk_def Let_def intro: follows_trans)
    next
      case (Inr x)
      obtain r1 d' where x: "x = (r1, d')" by (cases x)
      from follows_decrypt_step [where K = K and f = f and n = n and d = "?d" and r = "?r0"] Inr x r0 have r1: "follows K r r1"
        by (auto intro: follows_trans)
      from follows_hash_step [of K r1 f d'] r1 False Inr x show ?thesis
        by (auto simp: chunk_def Let_def intro: follows_trans)
    qed
  qed
qed

lemma follows_segment_while: "follows K r (run_of (segment_while K opr iov off r))"
proof (induction K opr iov off r rule: segment_while.induct)
  case (1 K opr iov off r)
  show ?case
  proof (cases "off < len iov")
    case False
    then have "segment_while K opr iov off r = Inr r"
      by (subst segment_while.simps) simp
    then show ?thesis
      by (simp add: follows_refl)
  next
    case True
    define nbytes where "nbytes = len iov - off"
    define bufsize where "bufsize = (if PAGE_SIZE < len iov then PAGE_SIZE else len iov)"
    define n where "n = (if bufsize < nbytes then bufsize else nbytes)"
    have unfold: "segment_while K opr iov off r =
      (case chunk K opr (op_flags iov) (src iov + off) n r of
         Inl j \<Rightarrow> Inl j
       | Inr r' \<Rightarrow> segment_while K opr iov (off + n) r')"
      using True unfolding n_def bufsize_def nbytes_def
      by (subst segment_while.simps) (simp only: Let_def if_True)
    show ?thesis
    proof (cases "chunk K opr (op_flags iov) (src iov + off) n r")
      case (Inl j)
      with follows_chunk [of K r opr "op_flags iov" "src iov + off" n] unfold show ?thesis
        by simp
    next
      case (Inr r1)
      with follows_chunk [of K r opr "op_flags iov" "src iov + off" n]
      have "follows K r r1"
        by simp
      moreover from "1.IH" [OF True nbytes_def bufsize_def n_def Inr]
      have "follows K r1 (run_of (segment_while K opr iov (off + n) r1))" .
      ultimately show ?thesis
        using unfold Inr by (auto intro: follows_trans)
    qed
  qed
qed

lemma follows_update_stats: "follows K r (update_stats K opr iov r)"
  by (simp add: follows_def update_stats_def option.map_ident)

lemma follows_segment: "follows K r (run_of (segment K opr bs iov r))"
proof (cases "segment_while K opr iov 0 r")
  case (Inl j)
  with follows_segment_while [of K r opr iov 0] show ?thesis
    by (auto simp: segment_def follows_refl)
next
  case (Inr r1)
  with follows_segment_while [of K r opr iov 0] have "follows K r r1"
    by simp
  from follows_trans [OF this follows_update_stats] Inr show ?thesis
    by (auto simp: segment_def follows_refl)
qed

lemma follows_iovec_loop: "follows K r (run_of (iovec_loop K opr bs iovs r))"
proof (induction iovs arbitrary: r)
  case Nil
  show ?case
    by (simp add: follows_refl)
next
  case (Cons iov iovs)
  show ?case
  proof (cases "segment K opr bs iov r")
    case (Inl j)
    with follows_segment [of K r opr bs iov] show ?thesis
      by simp
  next
    case (Inr r1)
    with follows_segment [of K r opr bs iov] have "follows K r r1"
      by simp
    from follows_trans [OF this Cons.IH [of r1]] Inr show ?thesis
      by simp
  qed
qed

lemma follows_hash_init_step: "follows K r (run_of (hash_init_step K r))"
  by (auto simp: follows_def hash_init_step_def Let_def option.map_ident
      split: option.splits prod.splits)

lemma follows_set_iv_step: "follows K r (set_iv_step K copv r)"
  by (auto simp: follows_def set_iv_step_def Let_def split: option.splits)

lemma follows_hash_final_step: "follows K r (run_of (hash_final_step K copv r))"
  by (auto simp: follows_def hash_final_step_def Let_def option.map_ident
      split: option.splits prod.splits)

lemma follows_leave: "leave (l, ret, r) = Some (ret', r') \<Longrightarrow> ret' = ret \<and> follows K r r'"
  by (cases l) (auto simp: follows_def option.map_ident)

lemma follows_after_loop:
  assumes "after_loop K copv res = Some (ret, r')"
  shows "follows K (run_of res) r'"
proof (cases res)
  case (Inl j)
  obtain l ret0 r0 where j: "j = (l, ret0, r0)" by (cases j)
  from assms Inl j follows_leave [of l ret0 r0 ret r' K] show ?thesis
    by (simp add: after_loop_def)
next
  case (Inr r2)
  show ?thesis
  proof (cases "hash_final_step K copv r2")
    case (Inl j)
    obtain l ret0 r0 where j: "j = (l, ret0, r0)" by (cases j)
    from follows_hash_final_step [of K r2 copv] Inl j have "follows K r2 r0"
      by simp
    moreover from assms Inr Inl j follows_leave [of l ret0 r0 ret r' K]
    have "follows K r0 r'"
      by (simp add: after_loop_def)
    ultimately show ?thesis
      using Inr by (auto intro: follows_trans)
  next
    case (Inr r3)
    from follows_hash_final_step [of K r2 copv] Inr have "follows K r2 r3"
      by simp
    moreover from assms \<open>res = Inr r2\<close> Inr follows_leave [of Out 0 r3 ret r' K]
    have "follows K r3 r'"
      by (simp add: after_loop_def)
    ultimately show ?thesis
      using \<open>res = Inr r2\<close> by (auto intro: follows_trans)
  qed
qed

lemma follows_runv_locked:
  assumes "runv_locked K copv r = Some (ret, r')"
  shows "follows K r r'"
proof (cases "get_free_page_ok K")
  case False
  with assms show ?thesis
    by (simp add: runv_locked_def follows_refl)
next
  case True
  have g: "follows K r (emit Get_free_page r)"
    by (simp add: follows_def option.map_ident)
  show ?thesis
  proof (cases "hash_init_step K (emit Get_free_page r)")
    case (Inl j)
    obtain l ret0 r0 where j: "j = (l, ret0, r0)" by (cases j)
    from follows_hash_init_step [of K "emit Get_free_page r"] Inl j g
    have "follows K r r0"
      by (auto intro: follows_trans)
    moreover from assms True Inl j follows_leave [of l ret0 r0 ret r' K]
    have "follows K r0 r'"
      by (simp add: runv_locked_def)
    ultimately show ?thesis
      by (rule follows_trans)
  next
    case (Inr r1)
    let ?res = "iovec_loop K (op copv) (blocksize_of K r1) (iovec copv) (set_iv_step K copv r1)"
    from follows_hash_init_step [of K "emit Get_free_page r"] Inr g
    have "follows K r r1"
      by (auto intro: follows_trans)
    from follows_trans [OF this follows_set_iv_step]
    have "follows K r (set_iv_step K copv r1)" .
    from follows_trans [OF this follows_iovec_loop]
    have "follows K r (run_of ?res)" .
    moreover from assms True Inr have "after_loop K copv ?res = Some (ret, r')"
      by (simp add: runv_locked_def)
    from follows_after_loop [OF this] have "follows K (run_of ?res) r'" .
    ultimately show ?thesis
      by (rule follows_trans)
  qed
qed

lemma get_session_walk_update:
  "sid e = sid (es ! j) \<Longrightarrow> j < length es \<Longrightarrow>
   get_session_walk i (es[j := e]) s = get_session_walk i es s"
proof (induction es arbitrary: i j)
  case Nil
  then show ?case by simp
next
  case (Cons a es)
  then show ?case
    by (cases j) auto
qed

lemma runv_leaves:
  assumes lookup: "crypto_get_session_by_sid st (ses copv) = Entry i"
    and opr: "op copv = COP_ENCRYPT K \<or> op copv = COP_DECRYPT K"
    and cipher: "tfm (fcr_list st ! i) = Some c"
    and ok: "crypto_runv K copv st = Ret ret st'"
  shows "\<exists>r evs. runv_locked K copv (enter st i copv) = Some (ret, r) \<and>
           r_trace r = trace st @ evs \<and> trace st' = trace st @ evs \<and>
           tfm (fcr_list st' ! i) = Some (cipher_after K c evs) \<and>
           (\<forall>s. crypto_get_session_by_sid st' s = crypto_get_session_by_sid st s)"
proof -
  from ok lookup opr obtain r where
    run: "runv_locked K copv (enter st i copv) = Some (ret, r)" and st': "st' = commit st i r"
    by (auto simp: crypto_runv_def split: option.splits)
  from follows_runv_locked [OF run] cipher obtain evs where
    tr: "r_trace r = trace st @ evs"
    and t: "tfm (r_ses r) = Some (cipher_after K c evs)"
    and s: "sid (r_ses r) = sid (fcr_list st ! i)"
    by (auto simp: follows_def)
  from lookup have i: "i < length (fcr_list st)"
    using get_session_walk_Entry [of 0 "fcr_list st" "ses copv" i]
    by (simp add: crypto_get_session_by_sid_def)
  have "crypto_get_session_by_sid st' s' = crypto_get_session_by_sid st s'" for s'
    unfolding st' crypto_get_session_by_sid_def
    using get_session_walk_update [OF s i] by simp
  with run tr t i st' show ?thesis
    by auto
qed

subsection \<open>The claims about a request\<close>

text \<open>
  C4, as the code has it. A flag of a segment for which the session has no transform does
  not make \<^verbatim>\<open>crypto_runv\<close> refuse the request: the flag is ignored. Two requests that
  differ only in such flags are treated alike, whatever the outcome.
\<close>

theorem unusable_flag_ignored:
  assumes "crypto_get_session_by_sid st (ses copv) = Entry i"
    and "list_all2 (same_but_unused_flags K (fcr_list st ! i)) (iovec copv) iovs"
  shows "crypto_runv K (copv\<lparr>iovec := iovs\<rparr>) st = crypto_runv K copv st"
proof -
  have "runv_locked K (copv\<lparr>iovec := iovs\<rparr>) (enter st i copv) =
        runv_locked K copv (enter st i copv)"
  proof (cases "hash_init_step K (emit Get_free_page (enter st i copv))")
    case (Inl j)
    then show ?thesis by (simp add: runv_locked_def)
  next
    case (Inr r1)
    from hash_init_step_keeps [OF Inr] set_iv_step_keeps [of K copv r1]
    have "iovec_loop K (op copv) (blocksize_of K r1) (iovec copv) (set_iv_step K copv r1) =
          iovec_loop K (op copv) (blocksize_of K r1) iovs (set_iv_step K copv r1)"
      by (intro iovec_loop_flags_cong [OF assms(2)]) simp_all
    with Inr show ?thesis by (simp add: runv_locked_def)
  qed
  moreover have "enter st i (copv\<lparr>iovec := iovs\<rparr>) = enter st i copv"
    by (simp add: enter_def)
  ultimately have "runv_locked K (copv\<lparr>iovec := iovs\<rparr>) (enter st i (copv\<lparr>iovec := iovs\<rparr>)) =
        runv_locked K copv (enter st i copv)"
    by (simp only:)
  then show ?thesis
    using assms(1) by (simp add: crypto_runv_def)
qed

theorem unusable_flag_ignored_witness:
  "crypto_get_session_by_sid demo_hash_state (ses demo_cipher_flag_copv) = Entry 0 \<and>
   list_all2 (same_but_unused_flags demo_kernel (fcr_list demo_hash_state ! 0))
     (iovec demo_cipher_flag_copv) [\<lparr>src = 8, len = 5, op_flags = 0\<rparr>] \<and>
   crypto_runv demo_kernel (demo_cipher_flag_copv\<lparr>iovec := [\<lparr>src = 8, len = 5, op_flags = 0\<rparr>]\<rparr>)
     demo_hash_state =
   crypto_runv demo_kernel demo_cipher_flag_copv demo_hash_state"
proof -
  have a: "crypto_get_session_by_sid demo_hash_state (ses demo_cipher_flag_copv) = Entry 0"
    by code_simp
  have b: "list_all2 (same_but_unused_flags demo_kernel (fcr_list demo_hash_state ! 0))
     (iovec demo_cipher_flag_copv) [\<lparr>src = 8, len = 5, op_flags = 0\<rparr>]"
    by code_simp
  from unusable_flag_ignored [OF a b] a b show ?thesis
    by blast
qed

text \<open>
  C4, as the claim has it, fails: on a session with a hash and no cipher, a segment of 5
  bytes with the apply-cipher flag is accepted, and the call returns 0.
\<close>

theorem cipher_flag_without_cipher_accepted:
  "tfm (fcr_list demo_hash_state ! 0) = None \<and>
   op_flags (hd (iovec demo_cipher_flag_copv)) AND IOP_CIPHER demo_kernel \<noteq> 0 \<and>
   crypto_get_session_by_sid demo_hash_state (ses demo_cipher_flag_copv) = Entry 0 \<and>
   ret_of (crypto_runv demo_kernel demo_cipher_flag_copv demo_hash_state) = Some 0"
  by code_simp

text \<open>
  C5. The page allocated for the staging buffer should be freed on every path. The jumps
  for a misaligned segment and for a failed \<^verbatim>\<open>crypto_hash_init\<close> go to
  \<^verbatim>\<open>out_unlock\<close>, past \<^verbatim>\<open>free_page\<close>: here a segment of 7 bytes for a cipher of
  block size 4 is refused with \<^verbatim>\<open>-EINVAL\<close>, and the calls made are the allocation of
  the page and \<^verbatim>\<open>crypto_hash_init\<close>, with no \<^verbatim>\<open>free_page\<close>.
\<close>

theorem misaligned_segment_leaks_page:
  "ret_of (crypto_runv demo_kernel demo_odd_copv demo_state) = Some (- EINVAL) \<and>
   map_option trace (state_of (crypto_runv demo_kernel demo_odd_copv demo_state)) =
     Some [Get_free_page, Hash_init]"
  by code_simp



text \<open>
  C7. On a session with a cipher transform \<open>c\<close>, a request one of whose segments carries
  the apply-cipher flag and has a length that is no multiple of the block size is refused:
  \<^verbatim>\<open>crypto_runv\<close> returns a value other than 0. When the call gets as far as that segment
  (the page is there, the hash is initialised, and the segments before it are worked off,
  ending in the state \<open>r2\<close>), it returns \<^verbatim>\<open>-EINVAL\<close> in the state \<open>r2\<close>: nothing is copied
  in, no transform is called, nothing is written and no statistics are updated for the
  segment, and what the earlier segments left stays.
\<close>

theorem misaligned_segment_rejected:
  assumes lookup: "crypto_get_session_by_sid st (ses copv) = Entry i"
    and cipher: "tfm (fcr_list st ! i) = Some c"
    and segs: "iovec copv = pre @ iov # post"
    and flag: "op_flags iov AND IOP_CIPHER K \<noteq> 0"
    and bs: "0 < crypto_blkcipher_blocksize K c"
    and odd: "len iov mod crypto_blkcipher_blocksize K c \<noteq> 0"
  shows "(\<exists>ret st'. crypto_runv K copv st = Ret ret st' \<and> ret \<noteq> 0) \<and>
         (\<forall>r1 r2. (op copv = COP_ENCRYPT K \<or> op copv = COP_DECRYPT K) \<longrightarrow>
            get_free_page_ok K \<longrightarrow>
            hash_init_step K (emit Get_free_page (enter st i copv)) = Inr r1 \<longrightarrow>
            iovec_loop K (op copv) (crypto_blkcipher_blocksize K c) pre
              (set_iv_step K copv r1) = Inr r2 \<longrightarrow>
            crypto_runv K copv st = Ret (- EINVAL) (commit st i r2))"
proof (intro conjI allI impI)
  let ?r0 = "enter st i copv"
  let ?b = "crypto_blkcipher_blocksize K c"
  have "\<exists>ret r. runv_locked K copv ?r0 = Some (ret, r) \<and> ret \<noteq> 0"
  proof (cases "get_free_page_ok K")
    case False
    then show ?thesis by (simp add: runv_locked_def ENOMEM_def)
  next
    case True
    show ?thesis
    proof (cases "hash_init_step K (emit Get_free_page ?r0)")
      case (Inl j)
      obtain l ret r' where j: "j = (l, ret, r')" by (cases j)
      from hash_init_step_Inl [OF Inl [unfolded j]] True Inl j show ?thesis
        by (simp add: runv_locked_def)
    next
      case (Inr r1)
      from hash_init_step_keeps [OF Inr] cipher have t1: "tfm (r_ses r1) = Some c"
        by simp
      then have b: "blocksize_of K r1 = ?b"
        by (simp add: blocksize_of_def)
      from t1 set_iv_step_keeps [of K copv r1]
      have "tfm (r_ses (set_iv_step K copv r1)) \<noteq> None"
        by simp
      from misaligned_loop [OF this flag bs odd, of "op copv" pre post] segs
      obtain l ret r' where
        "iovec_loop K (op copv) ?b (iovec copv) (set_iv_step K copv r1) = Inl (l, ret, r')"
        and l: "l \<noteq> Divide_error" and ret: "ret \<noteq> 0"
        by auto
      with True Inr b leave_returns [OF l, of ret r'] show ?thesis
        by (auto simp: runv_locked_def after_loop_def)
    qed
  qed
  with lookup show "\<exists>ret st'. crypto_runv K copv st = Ret ret st' \<and> ret \<noteq> 0"
    by (auto simp: crypto_runv_def EINVAL_def)
next
  fix r1 r2
  assume opr: "op copv = COP_ENCRYPT K \<or> op copv = COP_DECRYPT K"
    and page: "get_free_page_ok K"
    and init: "hash_init_step K (emit Get_free_page (enter st i copv)) = Inr r1"
    and before: "iovec_loop K (op copv) (crypto_blkcipher_blocksize K c) pre
                   (set_iv_step K copv r1) = Inr r2"
  from hash_init_step_keeps [OF init] cipher have t1: "tfm (r_ses r1) = Some c"
    by simp
  then have b: "blocksize_of K r1 = crypto_blkcipher_blocksize K c"
    by (simp add: blocksize_of_def)
  from t1 set_iv_step_keeps [of K copv r1] iovec_loop_keeps [OF before]
  have "tfm (r_ses r2) \<noteq> None"
    by simp
  with flag bs odd
  have "segment K (op copv) (crypto_blkcipher_blocksize K c) iov r2 =
        Inl (Out_unlock, - EINVAL, r2)"
    by (simp add: segment_def)
  with before segs
  have "iovec_loop K (op copv) (crypto_blkcipher_blocksize K c) (iovec copv)
          (set_iv_step K copv r1) = Inl (Out_unlock, - EINVAL, r2)"
    by (simp add: iovec_loop_append)
  with page init b have "runv_locked K copv (enter st i copv) = Some (- EINVAL, r2)"
    by (simp add: runv_locked_def after_loop_def)
  with lookup opr show "crypto_runv K copv st = Ret (- EINVAL) (commit st i r2)"
    by (auto simp: crypto_runv_def)
qed

theorem misaligned_segment_rejected_witness:
  "ret_of (crypto_runv demo_kernel demo_mis_copv demo_state) \<noteq> Some 0 \<and>
   crypto_runv demo_kernel demo_mis_copv demo_state =
     Ret (- EINVAL) (commit demo_state 0 demo_mis_r2) \<and>
   r_trace demo_mis_r2 =
     [Get_free_page, Hash_init, Copy_from_user 8 [8, 9, 10, 11], Hash_update [8, 9, 10, 11],
      Encrypt [8, 9, 10, 11] [8, 9, 10, 11], Copy_to_user 0 [8, 9, 10, 11]]"
proof -
  have lookup: "crypto_get_session_by_sid demo_state (ses demo_mis_copv) = Entry 0"
    by code_simp
  have cipher: "tfm (fcr_list demo_state ! 0) = Some []"
    by code_simp
  have segs: "iovec demo_mis_copv =
     [\<lparr>src = 8, len = 4, op_flags = 3\<rparr>] @ \<lparr>src = 12, len = 7, op_flags = 3\<rparr> #
     [\<lparr>src = 20, len = 4, op_flags = 3\<rparr>]"
    by (simp add: demo_mis_copv_def)
  have flag: "op_flags \<lparr>src = 12, len = 7, op_flags = 3\<rparr> AND IOP_CIPHER demo_kernel \<noteq> 0"
    by code_simp
  have b4: "crypto_blkcipher_blocksize demo_kernel [] = 4"
    by (simp add: demo_kernel_def)
  have bs: "0 < crypto_blkcipher_blocksize demo_kernel []"
    by (simp add: b4)
  have odd: "len \<lparr>src = 12, len = 7, op_flags = 3\<rparr> mod
             crypto_blkcipher_blocksize demo_kernel [] \<noteq> 0"
    by (simp add: b4)
  have opv: "op demo_mis_copv = 0"
    by (simp add: demo_mis_copv_def)
  have opr: "op demo_mis_copv = COP_ENCRYPT demo_kernel \<or>
             op demo_mis_copv = COP_DECRYPT demo_kernel"
    by (simp add: demo_mis_copv_def demo_kernel_def)
  have page: "get_free_page_ok demo_kernel"
    by code_simp
  have init: "hash_init_step demo_kernel (emit Get_free_page (enter demo_state 0 demo_mis_copv)) =
              Inr demo_mis_r1"
    unfolding demo_mis_r1_def by (rule Inr_run_of) code_simp
  have before: "iovec_loop demo_kernel (op demo_mis_copv)
       (crypto_blkcipher_blocksize demo_kernel [])
       [\<lparr>src = 8, len = 4, op_flags = 3\<rparr>] (set_iv_step demo_kernel demo_mis_copv demo_mis_r1) =
     Inr demo_mis_r2"
    unfolding demo_mis_r2_def b4 opv by (rule Inr_run_of) code_simp
  have tr: "r_trace demo_mis_r2 =
     [Get_free_page, Hash_init, Copy_from_user 8 [8, 9, 10, 11], Hash_update [8, 9, 10, 11],
      Encrypt [8, 9, 10, 11] [8, 9, 10, 11], Copy_to_user 0 [8, 9, 10, 11]]"
    by code_simp
  from misaligned_segment_rejected [OF lookup cipher segs flag bs odd]
  have "\<exists>ret st'. crypto_runv demo_kernel demo_mis_copv demo_state = Ret ret st' \<and> ret \<noteq> 0"
    and "crypto_runv demo_kernel demo_mis_copv demo_state =
           Ret (- EINVAL) (commit demo_state 0 demo_mis_r2)"
    using opr page init before by blast+
  with tr show ?thesis
    by auto
qed

text \<open>
  C9. Two calls on one session that has a cipher transform \<open>c\<close>. When the first returns,
  the session found under the same \<open>sid\<close> holds the transform \<open>c1\<close>: \<open>c\<close> after the calls
  of \<^verbatim>\<open>crypto_blkcipher_set_iv\<close>, \<^verbatim>\<open>crypto_blkcipher_encrypt\<close> and
  \<^verbatim>\<open>crypto_blkcipher_decrypt\<close> that the first call has made (none, if it was refused for
  its operation, so that this is a statement about every state). The second call either
  ends before the loop over the segments (there is no page, or \<^verbatim>\<open>crypto_hash_init\<close>
  fails), or works off its segments from a state whose cipher transform is \<open>c1\<close> itself
  when the request has no IV, and \<open>c1\<close> after \<^verbatim>\<open>crypto_blkcipher_set_iv\<close> with the first
  \<^verbatim>\<open>ivsize\<close> bytes at \<open>iv\<close> when it has one.
\<close>

theorem iv_priming:
  assumes lookup: "crypto_get_session_by_sid st (ses prev) = Entry i"
    and cipher: "tfm (fcr_list st ! i) = Some c"
    and prev: "crypto_runv K prev st = Ret ret st1"
    and same: "ses copv = ses prev"
    and opr: "op copv = COP_ENCRYPT K \<or> op copv = COP_DECRYPT K"
  shows "\<exists>evs c1.
     (if op prev = COP_ENCRYPT K \<or> op prev = COP_DECRYPT K
      then \<exists>r. runv_locked K prev (enter st i prev) = Some (ret, r) \<and>
             r_trace r = trace st @ evs
      else evs = []) \<and>
     trace st1 = trace st @ evs \<and>
     c1 = cipher_after K c evs \<and>
     crypto_get_session_by_sid st1 (ses copv) = Entry i \<and>
     tfm (fcr_list st1 ! i) = Some c1 \<and>
     crypto_runv K copv st1 =
       (if \<not> get_free_page_ok K then Ret (- ENOMEM) (commit st1 i (enter st1 i copv))
        else
          (case hash_init_step K (emit Get_free_page (enter st1 i copv)) of
             Inl (l, ret, r) \<Rightarrow> Ret ret (commit st1 i r)
           | Inr r1 \<Rightarrow>
               (case after_loop K copv
                       (iovec_loop K (op copv) (crypto_blkcipher_blocksize K c1) (iovec copv)
                          (if iv copv = 0 then r1
                           else emit (Set_iv (copy_from_user (umem st1) (iv copv)
                                                (crypto_blkcipher_ivsize K c1)))
                                  (r1\<lparr>r_ses := (r_ses r1)
                                        \<lparr>tfm := Some (crypto_blkcipher_set_iv K c1
                                             (copy_from_user (umem st1) (iv copv)
                                                (crypto_blkcipher_ivsize K c1)))\<rparr>\<rparr>))) of
                  None \<Rightarrow> Undefined
                | Some (ret, r) \<Rightarrow> Ret ret (commit st1 i r)))) \<and>
     (\<forall>r1. hash_init_step K (emit Get_free_page (enter st1 i copv)) = Inr r1 \<longrightarrow>
        tfm (r_ses r1) = Some c1)"
proof -
  have "\<exists>evs.
     (if op prev = COP_ENCRYPT K \<or> op prev = COP_DECRYPT K
      then \<exists>r. runv_locked K prev (enter st i prev) = Some (ret, r) \<and>
             r_trace r = trace st @ evs
      else evs = []) \<and>
     trace st1 = trace st @ evs \<and>
     crypto_get_session_by_sid st1 (ses copv) = Entry i \<and>
     tfm (fcr_list st1 ! i) = Some (cipher_after K c evs)"
  proof (cases "op prev = COP_ENCRYPT K \<or> op prev = COP_DECRYPT K")
    case True
    from runv_leaves [OF lookup True cipher prev] True lookup same show ?thesis
      by auto
  next
    case False
    with prev have "st1 = st"
      by (simp add: crypto_runv_def)
    with False lookup same cipher show ?thesis
      by simp
  qed
  then obtain evs where
    first: "if op prev = COP_ENCRYPT K \<or> op prev = COP_DECRYPT K
      then \<exists>r. runv_locked K prev (enter st i prev) = Some (ret, r) \<and>
             r_trace r = trace st @ evs
      else evs = []"
    and tr: "trace st1 = trace st @ evs"
    and lookup1: "crypto_get_session_by_sid st1 (ses copv) = Entry i"
    and cipher1: "tfm (fcr_list st1 ! i) = Some (cipher_after K c evs)"
    by blast
  from first tr lookup1 cipher1 runv_from_primed_state [OF lookup1 opr cipher1]
  show ?thesis
    by (intro exI [of _ evs] exI [of _ "cipher_after K c evs"] conjI) simp_all
qed

theorem iv_priming_witness:
  "crypto_get_session_by_sid demo_state (ses demo_iv_copv) = Entry 0 \<and>
   tfm (fcr_list demo_state ! 0) = Some [] \<and>
   crypto_runv demo_kernel demo_iv_copv demo_state = Ret 0 demo_state_1 \<and>
   trace demo_state_1 =
     [Get_free_page, Hash_init, Set_iv [2, 3, 4, 5],
      Copy_from_user 8 [8, 9, 10, 11], Hash_update [8, 9, 10, 11],
      Encrypt [8, 9, 10, 11] [22, 23, 24, 25], Copy_to_user 0 [22, 23, 24, 25],
      Hash_final, Copy_to_user 20 [4, 38], Free_page] \<and>
   crypto_get_session_by_sid demo_state_1 (ses demo_copv) = Entry 0 \<and>
   tfm (fcr_list demo_state_1 ! 0) = Some [22, 23, 24, 25] \<and>
   iv demo_copv = 0 \<and>
   crypto_runv demo_kernel demo_copv demo_state_1 =
     (case after_loop demo_kernel demo_copv
             (iovec_loop demo_kernel 0 4 (iovec demo_copv) demo_r1) of
        None \<Rightarrow> Undefined
      | Some (ret, r) \<Rightarrow> Ret ret (commit demo_state_1 0 r)) \<and>
   tfm (r_ses demo_r1) = Some [22, 23, 24, 25] \<and>
   map_option (\<lambda>s. drop 10 (trace s))
       (state_of (crypto_runv demo_kernel demo_copv demo_state_1)) =
     Some [Get_free_page, Hash_init,
           Copy_from_user 8 [8, 9, 10, 11], Hash_update [8, 9, 10, 11],
           Encrypt [8, 9, 10, 11] [102, 103, 104, 105], Copy_to_user 0 [102, 103, 104, 105],
           Copy_from_user 12 [12, 13, 14, 15, 16, 17, 18, 19],
           Hash_update [12, 13, 14, 15, 16, 17, 18, 19],
           Encrypt [12, 13, 14, 15, 16, 17, 18, 19] [170, 171, 172, 173, 174, 175, 176, 177],
           Copy_to_user 4 [170, 171, 172, 173, 174, 175, 176, 177],
           Hash_final, Copy_to_user 20 [12, 162], Free_page] \<and>
   map_option trace (state_of (crypto_runv demo_kernel demo_copv demo_state)) =
     Some [Get_free_page, Hash_init,
           Copy_from_user 8 [8, 9, 10, 11], Hash_update [8, 9, 10, 11],
           Encrypt [8, 9, 10, 11] [8, 9, 10, 11], Copy_to_user 0 [8, 9, 10, 11],
           Copy_from_user 12 [12, 13, 14, 15, 16, 17, 18, 19],
           Hash_update [12, 13, 14, 15, 16, 17, 18, 19],
           Encrypt [12, 13, 14, 15, 16, 17, 18, 19] [50, 51, 52, 53, 54, 55, 56, 57],
           Copy_to_user 4 [50, 51, 52, 53, 54, 55, 56, 57],
           Hash_final, Copy_to_user 20 [12, 162], Free_page] \<and>
   map_option (\<lambda>s. drop 10 (trace s))
       (state_of (crypto_runv demo_kernel demo_iv_copv demo_state_1)) =
     Some [Get_free_page, Hash_init, Set_iv [24, 25, 4, 5],
           Copy_from_user 8 [8, 9, 10, 11], Hash_update [8, 9, 10, 11],
           Encrypt [8, 9, 10, 11] [66, 67, 68, 69], Copy_to_user 0 [66, 67, 68, 69],
           Hash_final, Copy_to_user 20 [4, 38], Free_page]"
proof -
  have lookup: "crypto_get_session_by_sid demo_state (ses demo_iv_copv) = Entry 0"
    by code_simp
  have cipher: "tfm (fcr_list demo_state ! 0) = Some []"
    by code_simp
  have "ret_of (crypto_runv demo_kernel demo_iv_copv demo_state) = Some 0"
    by code_simp
  then have prev: "crypto_runv demo_kernel demo_iv_copv demo_state = Ret 0 demo_state_1"
    unfolding demo_state_1_def
    by (cases "crypto_runv demo_kernel demo_iv_copv demo_state") auto
  have same: "ses demo_copv = ses demo_iv_copv"
    by (simp add: demo_copv_def demo_iv_copv_def)
  have opr: "op demo_copv = COP_ENCRYPT demo_kernel \<or> op demo_copv = COP_DECRYPT demo_kernel"
    by (simp add: demo_copv_def demo_kernel_def)
  have tr: "trace demo_state_1 =
     [Get_free_page, Hash_init, Set_iv [2, 3, 4, 5],
      Copy_from_user 8 [8, 9, 10, 11], Hash_update [8, 9, 10, 11],
      Encrypt [8, 9, 10, 11] [22, 23, 24, 25], Copy_to_user 0 [22, 23, 24, 25],
      Hash_final, Copy_to_user 20 [4, 38], Free_page]"
    by code_simp
  have after: "cipher_after demo_kernel []
     [Get_free_page, Hash_init, Set_iv [2, 3, 4, 5],
      Copy_from_user 8 [8, 9, 10, 11], Hash_update [8, 9, 10, 11],
      Encrypt [8, 9, 10, 11] [22, 23, 24, 25], Copy_to_user 0 [22, 23, 24, 25],
      Hash_final, Copy_to_user 20 [4, 38], Free_page] = [22, 23, 24, 25]"
    by code_simp
  have page: "(\<not> get_free_page_ok demo_kernel) = False"
    by (simp add: demo_kernel_def)
  have init: "hash_init_step demo_kernel (emit Get_free_page (enter demo_state_1 0 demo_copv)) =
              Inr demo_r1"
    unfolding demo_r1_def by (rule Inr_run_of) code_simp
  have facts: "iv demo_copv = 0" "op demo_copv = 0"
    "crypto_blkcipher_blocksize demo_kernel [22, 23, 24, 25] = 4"
    by (simp_all add: demo_copv_def demo_kernel_def)
  have second: "map_option (\<lambda>s. drop 10 (trace s))
       (state_of (crypto_runv demo_kernel demo_copv demo_state_1)) =
     Some [Get_free_page, Hash_init,
           Copy_from_user 8 [8, 9, 10, 11], Hash_update [8, 9, 10, 11],
           Encrypt [8, 9, 10, 11] [102, 103, 104, 105], Copy_to_user 0 [102, 103, 104, 105],
           Copy_from_user 12 [12, 13, 14, 15, 16, 17, 18, 19],
           Hash_update [12, 13, 14, 15, 16, 17, 18, 19],
           Encrypt [12, 13, 14, 15, 16, 17, 18, 19] [170, 171, 172, 173, 174, 175, 176, 177],
           Copy_to_user 4 [170, 171, 172, 173, 174, 175, 176, 177],
           Hash_final, Copy_to_user 20 [12, 162], Free_page]"
    by code_simp
  have fresh: "map_option trace (state_of (crypto_runv demo_kernel demo_copv demo_state)) =
     Some [Get_free_page, Hash_init,
           Copy_from_user 8 [8, 9, 10, 11], Hash_update [8, 9, 10, 11],
           Encrypt [8, 9, 10, 11] [8, 9, 10, 11], Copy_to_user 0 [8, 9, 10, 11],
           Copy_from_user 12 [12, 13, 14, 15, 16, 17, 18, 19],
           Hash_update [12, 13, 14, 15, 16, 17, 18, 19],
           Encrypt [12, 13, 14, 15, 16, 17, 18, 19] [50, 51, 52, 53, 54, 55, 56, 57],
           Copy_to_user 4 [50, 51, 52, 53, 54, 55, 56, 57],
           Hash_final, Copy_to_user 20 [12, 162], Free_page]"
    by code_simp
  have again: "map_option (\<lambda>s. drop 10 (trace s))
       (state_of (crypto_runv demo_kernel demo_iv_copv demo_state_1)) =
     Some [Get_free_page, Hash_init, Set_iv [24, 25, 4, 5],
           Copy_from_user 8 [8, 9, 10, 11], Hash_update [8, 9, 10, 11],
           Encrypt [8, 9, 10, 11] [66, 67, 68, 69], Copy_to_user 0 [66, 67, 68, 69],
           Hash_final, Copy_to_user 20 [4, 38], Free_page]"
    by code_simp
  from iv_priming [OF lookup cipher prev same opr] obtain evs c1 where
    tr1: "trace demo_state_1 = trace demo_state @ evs"
    and c1: "c1 = cipher_after demo_kernel [] evs"
    and lookup1: "crypto_get_session_by_sid demo_state_1 (ses demo_copv) = Entry 0"
    and cipher1: "tfm (fcr_list demo_state_1 ! 0) = Some c1"
    and run: "crypto_runv demo_kernel demo_copv demo_state_1 =
       (if \<not> get_free_page_ok demo_kernel
        then Ret (- ENOMEM) (commit demo_state_1 0 (enter demo_state_1 0 demo_copv))
        else
          (case hash_init_step demo_kernel
                  (emit Get_free_page (enter demo_state_1 0 demo_copv)) of
             Inl (l, ret, r) \<Rightarrow> Ret ret (commit demo_state_1 0 r)
           | Inr r1 \<Rightarrow>
               (case after_loop demo_kernel demo_copv
                       (iovec_loop demo_kernel (op demo_copv)
                          (crypto_blkcipher_blocksize demo_kernel c1) (iovec demo_copv)
                          (if iv demo_copv = 0 then r1
                           else emit (Set_iv (copy_from_user (umem demo_state_1) (iv demo_copv)
                                                (crypto_blkcipher_ivsize demo_kernel c1)))
                                  (r1\<lparr>r_ses := (r_ses r1)
                                        \<lparr>tfm := Some (crypto_blkcipher_set_iv demo_kernel c1
                                             (copy_from_user (umem demo_state_1) (iv demo_copv)
                                                (crypto_blkcipher_ivsize demo_kernel c1)))\<rparr>\<rparr>))) of
                  None \<Rightarrow> Undefined
                | Some (ret, r) \<Rightarrow> Ret ret (commit demo_state_1 0 r))))"
    and r1: "\<forall>r1. hash_init_step demo_kernel
                    (emit Get_free_page (enter demo_state_1 0 demo_copv)) = Inr r1 \<longrightarrow>
        tfm (r_ses r1) = Some c1"
    by blast
  from tr1 have "evs = trace demo_state_1"
    by (simp add: demo_state_def)
  with c1 tr after have c1': "c1 = [22, 23, 24, 25]"
    by simp
  from run have run': "crypto_runv demo_kernel demo_copv demo_state_1 =
     (case after_loop demo_kernel demo_copv
             (iovec_loop demo_kernel 0 4 (iovec demo_copv) demo_r1) of
        None \<Rightarrow> Undefined
      | Some (ret, r) \<Rightarrow> Ret ret (commit demo_state_1 0 r))"
    unfolding c1' page init facts
    by (simp only: if_False if_True simp_thms sum.case)
  from r1 init have t1: "tfm (r_ses demo_r1) = Some [22, 23, 24, 25]"
    unfolding c1' by blast
  from lookup cipher prev tr lookup1 cipher1 [unfolded c1'] facts(1) run' t1 second fresh again
  show ?thesis
    by (intro conjI)
qed

text \<open>
  C10. A call on a session with a hash transform that returns 0, for a request none of
  whose segments (if it has any) carries the apply-hash flag, has written a digest to
  \<open>mac\<close>: the first \<^verbatim>\<open>crypto_hash_digestsize\<close> bytes that \<^verbatim>\<open>crypto_hash_final\<close> yields
  on the transform just as \<^verbatim>\<open>crypto_hash_init\<close> left it, with nothing hashed.
\<close>

theorem mac_without_hashed_segment:
  assumes lookup: "crypto_get_session_by_sid st (ses copv) = Entry i"
    and hash: "hash_tfm (fcr_list st ! i) = Some h"
    and nohash: "\<forall>iov \<in> set (iovec copv). op_flags iov AND IOP_HASH K = 0"
    and ok: "crypto_runv K copv st = Ret 0 st'"
  shows "\<exists>h0 h1 out.
           crypto_hash_init K h = (0, h0) \<and> crypto_hash_final K h0 = (0, h1, out) \<and>
           copy_from_user (umem st') (mac copv)
               (length (take (crypto_hash_digestsize K h1) out)) =
             take (crypto_hash_digestsize K h1) out \<and>
           (\<exists>evs. trace st' =
              evs @ [Hash_final,
                     Copy_to_user (mac copv) (take (crypto_hash_digestsize K h1) out),
                     Free_page])"
proof -
  let ?r0 = "enter st i copv"
  from ok lookup obtain r where
    run: "runv_locked K copv ?r0 = Some (0, r)" and st': "st' = commit st i r"
    by (auto simp: crypto_runv_def EINVAL_def split: if_splits option.splits)
  from run have page: "get_free_page_ok K"
    by (auto simp: runv_locked_def ENOMEM_def split: if_splits)
  obtain ret0 h0 where i0: "crypto_hash_init K h = (ret0, h0)"
    by (cases "crypto_hash_init K h")
  define r1 where "r1 = emit Hash_init
     ((emit Get_free_page ?r0)\<lparr>r_ses := (r_ses (emit Get_free_page ?r0))\<lparr>hash_tfm := Some h0\<rparr>\<rparr>)"
  have init: "hash_init_step K (emit Get_free_page ?r0) =
              (if ret0 \<noteq> 0 then Inl (Out_unlock, ret0, r1) else Inr r1)"
    using hash i0 by (simp add: hash_init_step_def r1_def Let_def)
  from run page init have ret0: "ret0 = 0"
    by (auto simp: runv_locked_def split: if_splits)
  with init have init': "hash_init_step K (emit Get_free_page ?r0) = Inr r1"
    by simp
  have h1: "hash_tfm (r_ses r1) = Some h0"
    by (simp add: r1_def)
  from run page init' have al: "after_loop K copv
      (iovec_loop K (op copv) (blocksize_of K r1) (iovec copv) (set_iv_step K copv r1)) =
      Some (0, r)"
    by (simp add: runv_locked_def)
  obtain r2 where loop:
    "iovec_loop K (op copv) (blocksize_of K r1) (iovec copv) (set_iv_step K copv r1) = Inr r2"
  proof (cases "iovec_loop K (op copv) (blocksize_of K r1) (iovec copv)
                  (set_iv_step K copv r1)")
    case (Inl j)
    obtain l ret r' where j: "j = (l, ret, r')" by (cases j)
    from iovec_loop_Inl [OF Inl [unfolded j]] al Inl j have False
      by (cases l) (auto simp: after_loop_def)
    then show ?thesis ..
  next
    case (Inr r2)
    then show ?thesis by (rule that)
  qed
  from iovec_loop_no_hash [OF nohash loop] set_iv_step_keeps [of K copv r1] h1
  have h2: "hash_tfm (r_ses r2) = Some h0"
    by simp
  obtain ret1 h1' out where f: "crypto_hash_final K h0 = (ret1, h1', out)"
    by (cases "crypto_hash_final K h0")
  let ?digest = "take (crypto_hash_digestsize K h1') out"
  from al loop h2 f have ret1: "ret1 = 0"
    by (auto simp: after_loop_def hash_final_step_def Let_def split: if_splits)
  from al loop h2 f ret1
  have r: "r_umem r = copy_to_user (r_umem r2) (mac copv) ?digest"
    "r_trace r = r_trace r2 @ [Hash_final, Copy_to_user (mac copv) ?digest, Free_page]"
    by (auto simp: after_loop_def hash_final_step_def Let_def)
  have "copy_from_user (r_umem r) (mac copv) (length ?digest) = ?digest"
    unfolding r(1) by (rule copy_from_user_copy_to_user)
  with i0 ret0 f ret1 r(2) st' show ?thesis
    by (auto simp del: length_take)
qed

theorem mac_without_hashed_segment_witness:
  "crypto_get_session_by_sid demo_state (ses demo_nohash_copv) = Entry 0 \<and>
   hash_tfm (fcr_list demo_state ! 0) = Some [] \<and>
   (\<exists>st'. crypto_runv demo_kernel demo_nohash_copv demo_state = Ret 0 st' \<and>
      copy_from_user (umem st') 20 2 = [0, 0])"
proof -
  have lookup: "crypto_get_session_by_sid demo_state (ses demo_nohash_copv) = Entry 0"
    by code_simp
  have hash: "hash_tfm (fcr_list demo_state ! 0) = Some []"
    by code_simp
  have nohash: "\<forall>iov \<in> set (iovec demo_nohash_copv). op_flags iov AND IOP_HASH demo_kernel = 0"
    by code_simp
  have "ret_of (crypto_runv demo_kernel demo_nohash_copv demo_state) = Some 0"
    by code_simp
  then obtain st' where ok: "crypto_runv demo_kernel demo_nohash_copv demo_state = Ret 0 st'"
    by (cases "crypto_runv demo_kernel demo_nohash_copv demo_state") auto
  from mac_without_hashed_segment [OF lookup hash nohash ok]
  have "copy_from_user (umem st') 20 2 = [0, 0]"
    by (auto simp: demo_kernel_def demo_nohash_copv_def numeral_2_eq_2)
  with lookup hash ok show ?thesis
    by blast
qed

end
